theory Spec2Isabelle
  imports Complex_Main "HOL-Library.AList"
begin

section \<open>JavaScript strings and the string built-ins the handler calls\<close>

text \<open>
  The server is one Express application (\<^verbatim>\<open>src/unnamed/part_000\<close>; \<^verbatim>\<open>src/server.js\<close>
  holds two earlier revisions of the same handler).  A JavaScript string is modelled as
  an Isabelle \<open>string\<close>, one \<open>char\<close> per code unit, which covers the code units
  below 256.  Every literal the program compares against is ASCII.
\<close>

text \<open>\<^verbatim>\<open>s.startsWith(p)\<close> and \<^verbatim>\<open>s.includes(p)\<close>, the receiver first.\<close>

fun starts_with :: "string \<Rightarrow> string \<Rightarrow> bool" where
  "starts_with s [] = True"
| "starts_with [] (p # ps) = False"
| "starts_with (c # cs) (p # ps) = (c = p \<and> starts_with cs ps)"

fun str_includes :: "string \<Rightarrow> string \<Rightarrow> bool" where
  "str_includes [] p = (p = [])"
| "str_includes (c # cs) p = (starts_with (c # cs) p \<or> str_includes cs p)"

text \<open>
  \<^verbatim>\<open>s.trim()\<close> removes white space and line terminators from both ends.  Below code
  unit 256 these are TAB, LF, VT, FF, CR, SPACE and NBSP (U+00A0).
\<close>

definition is_space :: "char \<Rightarrow> bool" where
  "is_space c = (of_char c \<in> {9, 10, 11, 12, 13, 32, 160 :: nat})"

definition trim :: "string \<Rightarrow> string" where
  "trim s = rev (dropWhile is_space (rev (dropWhile is_space s)))"

text \<open>
  \<^verbatim>\<open>s.split(",")\<close>: the segments between the commas, so \<open>n\<close> commas give
  \<open>n + 1\<close> segments and the empty string gives one empty segment.
\<close>

fun split_comma :: "string \<Rightarrow> string list" where
  "split_comma [] = [[]]"
| "split_comma (c # cs) =
     (if c = CHR '','' then [] # split_comma cs
      else (case split_comma cs of
              [] \<Rightarrow> [[c]]
            | seg # segs \<Rightarrow> (c # seg) # segs))"

text \<open>\<^verbatim>\<open>xs.join(",")\<close>.\<close>

fun join_comma :: "string list \<Rightarrow> string" where
  "join_comma [] = []"
| "join_comma [x] = x"
| "join_comma (x # y # ys) = x @ CHR '','' # join_comma (y # ys)"

section \<open>The value normalizer (part\_000, lines 135 to 141)\<close>

text \<open>
  A value stored in \<^verbatim>\<open>out\<close> is a string or a Number.  A Number is modelled by the exact
  decimal value that \<^verbatim>\<open>parseFloat\<close> reads; the engine stores the IEEE double nearest
  to it.  \<open>JInherited k\<close> is the value of the property \<open>k\<close> that every object literal
  inherits from \<^verbatim>\<open>Object.prototype\<close> (a function, or the prototype itself for
  \<^verbatim>\<open>__proto__\<close>); it is neither \<^verbatim>\<open>null\<close> nor \<^verbatim>\<open>undefined\<close>.
\<close>

datatype jsval = JStr string | JNum rat | JInherited string

definition is_digit :: "char \<Rightarrow> bool" where
  "is_digit c = (c \<in> set ''0123456789'')"

text \<open>\<^verbatim>\<open>value.replace(/[^\d.,]/g, "")\<close>: without the \<^verbatim>\<open>u\<close> flag \<^verbatim>\<open>\d\<close> is \<^verbatim>\<open>[0-9]\<close>.\<close>

definition strip_price :: "string \<Rightarrow> string" where
  "strip_price v = filter (\<lambda>c. is_digit c \<or> c = CHR ''.'' \<or> c = CHR '','') v"

text \<open>\<^verbatim>\<open>.replace(",", ".")\<close>: a string pattern replaces the first occurrence only.\<close>

fun replace_first_comma :: "string \<Rightarrow> string" where
  "replace_first_comma [] = []"
| "replace_first_comma (c # cs) =
     (if c = CHR '','' then CHR ''.'' # cs else c # replace_first_comma cs)"

definition digit_val :: "char \<Rightarrow> nat" where
  "digit_val c = of_char c - 48"

definition digits_val :: "string \<Rightarrow> nat" where
  "digits_val ds = foldl (\<lambda>a c. 10 * a + digit_val c) 0 ds"

text \<open>
  \<^verbatim>\<open>parseFloat(num)\<close> on the strings the handler passes to it, which hold digits,
  periods and commas only (lemma \<open>cleaned_alphabet\<close> below): no white space, sign, exponent
  or \<^verbatim>\<open>Infinity\<close> can occur.  The longest prefix that is a decimal literal is read:
  digits, then optionally a period and more digits; a period alone needs a digit after it.
  \<open>None\<close> is \<^verbatim>\<open>NaN\<close>.
\<close>

definition parseFloat :: "string \<Rightarrow> rat option" where
  "parseFloat s =
     (let ip = takeWhile is_digit s;
          r = dropWhile is_digit s;
          fp = (case r of [] \<Rightarrow> [] | c # r' \<Rightarrow> if c = CHR ''.'' then takeWhile is_digit r' else [])
      in if ip = [] \<and> fp = [] then None
         else Some (of_nat (digits_val (ip @ fp)) / 10 ^ length fp))"

text \<open>
  The extracted \<^verbatim>\<open>value\<close> is a string or \<^verbatim>\<open>null\<close> (\<open>None\<close>); it is truthy when it is
  a non-empty string.
\<close>

definition truthy :: "string option \<Rightarrow> bool" where
  "truthy v = (case v of None \<Rightarrow> False | Some x \<Rightarrow> x \<noteq> [])"

text \<open>
  \<^verbatim>\<open>
  if (key.includes("price") && value) {
    const num = value.replace(/[^\d.,]/g, "").replace(",", ".");
    const parsed = parseFloat(num);
    out[key] = Number.isNaN(parsed) ? value : parsed;
  } else {
    out[key] = value || "";
  }
  \<close>
\<close>

definition normalize :: "string \<Rightarrow> string option \<Rightarrow> jsval" where
  "normalize key v =
     (case v of
        None \<Rightarrow> JStr []
      | Some x \<Rightarrow>
          if str_includes key ''price'' \<and> x \<noteq> [] then
            (case parseFloat (replace_first_comma (strip_price x)) of
               None \<Rightarrow> JStr x
             | Some parsed \<Rightarrow> JNum parsed)
          else JStr x)"

section \<open>The static fetch (\<^verbatim>\<open>fetchCostcoMeta\<close>, part\_000, lines 29 to 46)\<close>

text \<open>
  The two regular expressions have the shape
  \<^verbatim>\<open>/property=["']P["'][^>]*content=["']([^"']+)["']/i\<close>.
  With the \<^verbatim>\<open>i\<close> flag a pattern character matches an input character when both have
  the same upper-case form; the pattern is ASCII, so only ASCII letters are folded.
\<close>

definition to_upper :: "char \<Rightarrow> char" where
  "to_upper c =
     (case map_of (zip ''abcdefghijklmnopqrstuvwxyz'' ''ABCDEFGHIJKLMNOPQRSTUVWXYZ'') c of
        Some C \<Rightarrow> C
      | None \<Rightarrow> c)"

definition to_lower :: "char \<Rightarrow> char" where
  "to_lower c =
     (case map_of (zip ''ABCDEFGHIJKLMNOPQRSTUVWXYZ'' ''abcdefghijklmnopqrstuvwxyz'') c of
        Some C \<Rightarrow> C
      | None \<Rightarrow> c)"

definition quote :: "char \<Rightarrow> bool" where
  "quote c = (c = CHR 0x22 \<or> c = CHR 0x27)"

text \<open>\<open>ci_literal lit s\<close>: the rest of \<open>s\<close> after the literal \<open>lit\<close>, matched without case.\<close>

fun ci_literal :: "string \<Rightarrow> string \<Rightarrow> string option" where
  "ci_literal [] s = Some s"
| "ci_literal (p # ps) [] = None"
| "ci_literal (p # ps) (c # cs) =
     (if to_upper c = to_upper p then ci_literal ps cs else None)"

text \<open>The class \<^verbatim>\<open>["']\<close>.\<close>

definition one_quote :: "string \<Rightarrow> string option" where
  "one_quote s = (case s of [] \<Rightarrow> None | c # cs \<Rightarrow> if quote c then Some cs else None)"

text \<open>
  \<^verbatim>\<open>content=["']([^"']+)["']\<close> at the head of \<open>s\<close>.  The greedy group takes the
  whole run of non-quote characters; a shorter run is followed by a non-quote character,
  so backtracking into the group never succeeds.  The run has to be non-empty and has to
  be followed by a quote.
\<close>

definition content_here :: "string \<Rightarrow> string option" where
  "content_here s =
     (case ci_literal ''content='' s of
        None \<Rightarrow> None
      | Some r \<Rightarrow>
          (case one_quote r of
             None \<Rightarrow> None
           | Some v \<Rightarrow>
               let cap = takeWhile (\<lambda>c. \<not> quote c) v
               in if cap \<noteq> [] \<and> dropWhile (\<lambda>c. \<not> quote c) v \<noteq> [] then Some cap else None))"

text \<open>
  \<^verbatim>\<open>[^>]*\<close> followed by the content part: greedy, so the longest run of characters
  other than \<^verbatim>\<open>>\<close> is tried first and given back one character at a time.
\<close>

fun skip_to_content :: "string \<Rightarrow> string option" where
  "skip_to_content [] = content_here []"
| "skip_to_content (c # cs) =
     (if c = CHR ''>'' then content_here (c # cs)
      else (case skip_to_content cs of
              Some cap \<Rightarrow> Some cap
            | None \<Rightarrow> content_here (c # cs)))"

text \<open>The whole pattern anchored at the head of \<open>s\<close>.\<close>

definition meta_here :: "string \<Rightarrow> string \<Rightarrow> string option" where
  "meta_here prop s =
     (case ci_literal ''property='' s of
        None \<Rightarrow> None
      | Some r1 \<Rightarrow>
          (case one_quote r1 of
             None \<Rightarrow> None
           | Some r2 \<Rightarrow>
               (case ci_literal prop r2 of
                  None \<Rightarrow> None
                | Some r3 \<Rightarrow>
                    (case one_quote r3 of
                       None \<Rightarrow> None
                     | Some r4 \<Rightarrow> skip_to_content r4))))"

text \<open>\<^verbatim>\<open>html.match(re)\<close>: the leftmost position where the pattern matches; group 1.\<close>

fun meta_match :: "string \<Rightarrow> string \<Rightarrow> string option" where
  "meta_match prop [] = meta_here prop []"
| "meta_match prop (c # cs) =
     (case meta_here prop (c # cs) of
        Some cap \<Rightarrow> Some cap
      | None \<Rightarrow> meta_match prop cs)"

text \<open>\<^verbatim>\<open>(html.match(re) || [])[1] || ""\<close>.\<close>

definition group1 :: "string option \<Rightarrow> string" where
  "group1 m = (case m of None \<Rightarrow> [] | Some cap \<Rightarrow> cap)"

text \<open>
  What \<^verbatim>\<open>fetch(targetUrl, ...)\<close> does is the network's choice: it rejects, or it
  resolves to a response with its \<^verbatim>\<open>ok\<close> flag and a body (\<open>None\<close> when
  \<^verbatim>\<open>resp.text()\<close> rejects).
\<close>

datatype fetch_outcome = NetworkError | Response bool "string option"

record meta =
  c_price :: string
  c_title :: string

definition fetchCostcoMeta :: "(string \<Rightarrow> fetch_outcome) \<Rightarrow> string \<Rightarrow> meta option" where
  "fetchCostcoMeta fetch targetUrl =
     (case fetch targetUrl of
        NetworkError \<Rightarrow> None
      | Response ok body \<Rightarrow>
          if \<not> ok then None
          else (case body of
                  None \<Rightarrow> None
                | Some html \<Rightarrow>
                    Some \<lparr>c_price = group1 (meta_match ''product:price:amount'' html),
                          c_title = group1 (meta_match ''og:title'' html)\<rparr>))"

section \<open>Process state, the outside world, requests and responses\<close>

text \<open>
  \<^verbatim>\<open>res.json({ headers, values, raw })\<close>; the field \<open>values_arr\<close> is \<^verbatim>\<open>values\<close>.
  \<^verbatim>\<open>raw\<close> is the object \<^verbatim>\<open>out\<close>: its own properties as an association list with one
  entry per key.
\<close>

record payload =
  headers :: "string list"
  values_arr :: "jsval list"
  raw :: "(string \<times> jsval) list"

datatype body = Data payload | Error string

text \<open>
  A response: the status (\<^verbatim>\<open>res.json\<close> alone sends 200), the \<^verbatim>\<open>Cache-Control\<close> header
  when the handler has set one with \<^verbatim>\<open>res.set\<close>, and the JSON body.
\<close>

record response =
  status :: nat
  cache_control :: "string option"
  body :: body

text \<open>
  \<^verbatim>\<open>req.query\<close>: each parameter is absent or a string (a repeated parameter, which
  Express turns into an array, is outside the model).
\<close>

record request =
  url :: "string option"
  fields_param :: "string option"

text \<open>
  \<^verbatim>\<open>browserPromise\<close> is \<^verbatim>\<open>null\<close> or the promise of one \<^verbatim>\<open>chromium.launch\<close> call.
  \<open>Promise n r\<close> is the promise of the \<open>n\<close>-th launch of the process, which is also
  the identity of the browser it resolves to.
\<close>

datatype settlement = Pending | Fulfilled | Rejected string

datatype promise = Promise nat settlement

text \<open>
  The module-level variables \<^verbatim>\<open>browserPromise\<close> and \<^verbatim>\<open>cache\<close> (key to
  \<^verbatim>\<open>{ t, data }\<close>), with three counters that observe the browser: the number of
  \<^verbatim>\<open>chromium.launch\<close> calls, the number of contexts created, and the contexts that
  are open.
\<close>

record state =
  browserPromise :: "promise option"
  cache :: "string \<Rightarrow> (int \<times> payload) option"
  launches :: nat
  contexts :: nat
  live :: "nat list"

definition initial :: state where
  "initial = \<lparr>browserPromise = None, cache = (\<lambda>k. None), launches = 0, contexts = 0, live = []\<rparr>"

text \<open>The awaited page calls between \<^verbatim>\<open>newContext\<close> and the extract loop.\<close>

datatype step = NewPage | Route | SetExtraHTTPHeaders | Goto string | WaitForTimeout

text \<open>An element handle: what its two awaited reads do (reject, \<^verbatim>\<open>null\<close>, a string).\<close>

record element =
  getAttribute_content :: "string + string option"
  textContent :: "string + string option"

text \<open>
  Everything one run of the handler takes from outside the program.  A \<open>string option\<close>
  outcome is \<open>None\<close> when the call resolves and \<open>Some message\<close> when it rejects with
  an \<^verbatim>\<open>Error\<close> of that message; \<open>now_check\<close> and \<open>now_store\<close> are the two readings of
  \<^verbatim>\<open>Date.now()\<close>, at the cache lookup and at \<^verbatim>\<open>cache.set\<close>.
  \<open>hostname_of\<close> is \<^verbatim>\<open>new URL(String(url)).hostname\<close>, \<open>None\<close> when the constructor
  throws.  \<open>query n sel\<close> is the result of \<^verbatim>\<open>page.$(sel)\<close> when it is the \<open>n\<close>-th
  query of the request, so the page may change between two queries.
\<close>

record world =
  now_check :: int
  now_store :: int
  hostname_of :: "string \<Rightarrow> string option"
  fetch :: "string \<Rightarrow> fetch_outcome"
  launch :: "string option"
  newContext :: "string option"
  page_step :: "step \<Rightarrow> string option"
  query :: "nat \<Rightarrow> string \<Rightarrow> string + element option"
  close_context :: "string option"

text \<open>The calls the handler makes to the outside, in order, each logged when it is made.\<close>

datatype event = EvFetch string | EvLaunch | EvNewContext nat | EvStep step | EvClose nat

section \<open>The browser singleton (part\_000, lines 9 to 21)\<close>

text \<open>
  \<^verbatim>\<open>getBrowser\<close> runs to its \<^verbatim>\<open>return\<close> without suspending: the inner async function
  calls \<^verbatim>\<open>chromium.launch\<close> and suspends at its \<^verbatim>\<open>await\<close>, which hands the promise
  back to the assignment at once.  So one call is one atomic transition.
\<close>

definition getBrowser :: "state \<Rightarrow> promise \<times> state \<times> event list" where
  "getBrowser s =
     (case browserPromise s of
        Some p \<Rightarrow> (p, s, [])
      | None \<Rightarrow>
          let p = Promise (Suc (launches s)) Pending
          in (p, s\<lparr>browserPromise := Some p, launches := Suc (launches s)\<rparr>, [EvLaunch]))"

text \<open>The launch in flight finishes: \<open>None\<close> resolves it, \<open>Some message\<close> rejects it.\<close>

definition settle :: "string option \<Rightarrow> state \<Rightarrow> state" where
  "settle r s =
     (case browserPromise s of
        Some (Promise n Pending) \<Rightarrow>
          s\<lparr>browserPromise := Some (Promise n (case r of None \<Rightarrow> Fulfilled | Some m \<Rightarrow> Rejected m))\<rparr>
      | _ \<Rightarrow> s)"

text \<open>\<^verbatim>\<open>await\<close> on the promise: the browser's identity, or the rejection thrown.\<close>

fun await :: "string option \<Rightarrow> promise \<Rightarrow> string + nat" where
  "await r (Promise n Pending) = (case r of None \<Rightarrow> Inr n | Some m \<Rightarrow> Inl m)"
| "await r (Promise n Fulfilled) = Inr n"
| "await r (Promise n (Rejected m)) = Inl m"

section \<open>The selector catalog and the extract loop (part\_000, lines 107 to 142)\<close>

definition selectors :: "(string \<times> string list) list" where
  "selectors =
     [(''price'',
        [''#corePrice_feature_div .a-offscreen'',
         ''#apex_desktop .a-offscreen'',
         ''#tp_price_block_total_price_ww .a-offscreen'',
         ''#priceblock_ourprice'',
         ''#priceblock_dealprice'']),
      (''title'', [''#productTitle'', ''meta[property='og:title']'']),
      (''rating'', [''#acrPopover .a-icon-alt'', ''span[data-hook='rating-out-of-text']'']),
      (''c_price'', [''meta[property='product:price:amount']'']),
      (''c_title'', [''meta[property='og:title']''])]"

text \<open>
  \<^verbatim>\<open>selectors\<close> and \<^verbatim>\<open>out\<close> are object literals, so a property read that finds no own
  property continues in \<^verbatim>\<open>Object.prototype\<close>.  These are its property names; each
  holds a function, except \<^verbatim>\<open>__proto__\<close>, which reads as the prototype object.
\<close>

definition object_prototype_keys :: "string list" where
  "object_prototype_keys =
     [''constructor'', ''hasOwnProperty'', ''isPrototypeOf'', ''propertyIsEnumerable'',
      ''toLocaleString'', ''toString'', ''valueOf'', ''__proto__'',
      ''__defineGetter__'', ''__defineSetter__'', ''__lookupGetter__'', ''__lookupSetter__'']"

text \<open>
  \<^verbatim>\<open>const cands = selectors[key] || []\<close> as far as \<^verbatim>\<open>for (const sel of cands)\<close> can use
  it: the chain of the catalog, the empty chain for a name found nowhere, and \<open>None\<close> for
  an inherited property, which is truthy and not iterable, so the loop header throws a
  \<^verbatim>\<open>TypeError\<close>.
\<close>

definition candidates :: "string \<Rightarrow> string list option" where
  "candidates key =
     (case map_of selectors key of
        Some cands \<Rightarrow> Some cands
      | None \<Rightarrow> if key \<in> set object_prototype_keys then None else Some [])"

text \<open>
  \<^verbatim>\<open>
  if (sel.startsWith("meta[")) value = await el.getAttribute("content");
  else value = (await el.textContent())?.trim() || "";
  \<close>
\<close>

definition read_value :: "string \<Rightarrow> element \<Rightarrow> string + string option" where
  "read_value sel el =
     (if starts_with sel ''meta['' then getAttribute_content el
      else (case textContent el of
              Inl e \<Rightarrow> Inl e
            | Inr None \<Rightarrow> Inr (Some [])
            | Inr (Some t) \<Rightarrow> Inr (Some (trim t))))"

text \<open>
  The inner loop over the candidates.  \<open>n\<close> counts the queries made on the page so far;
  \<open>v\<close> is the variable \<^verbatim>\<open>value\<close>, which survives a \<^verbatim>\<open>continue\<close>.
\<close>

fun try_candidates ::
  "(nat \<Rightarrow> string \<Rightarrow> string + element option) \<Rightarrow> nat \<Rightarrow> string list \<Rightarrow> string option
     \<Rightarrow> (string + string option) \<times> nat" where
  "try_candidates q n [] v = (Inr v, n)"
| "try_candidates q n (sel # cands) v =
     (case q n sel of
        Inl e \<Rightarrow> (Inl e, Suc n)
      | Inr None \<Rightarrow> try_candidates q (Suc n) cands v
      | Inr (Some el) \<Rightarrow>
          (case read_value sel el of
             Inl e \<Rightarrow> (Inl e, Suc n)
           | Inr v' \<Rightarrow>
               if truthy v' then (Inr v', Suc n) else try_candidates q (Suc n) cands v'))"

text \<open>The outer loop over \<^verbatim>\<open>wanted\<close>; \<^verbatim>\<open>out[key] = ...\<close> adds or overwrites one property.\<close>

fun extract_loop ::
  "(nat \<Rightarrow> string \<Rightarrow> string + element option) \<Rightarrow> nat \<Rightarrow> string list \<Rightarrow> (string \<times> jsval) list
     \<Rightarrow> string + (string \<times> jsval) list" where
  "extract_loop q n [] out = Inr out"
| "extract_loop q n (key # keys) out =
     (case candidates key of
        None \<Rightarrow> Inl ''cands is not iterable''
      | Some cands \<Rightarrow>
          (case try_candidates q n cands (Some []) of
             (Inl e, n') \<Rightarrow> Inl e
           | (Inr v, n') \<Rightarrow> extract_loop q n' keys (AList.update key (normalize key v) out)))"

text \<open>\<^verbatim>\<open>out[k] ?? ""\<close>: an own property, else an inherited one, else the empty string.\<close>

definition lookup_out :: "(string \<times> jsval) list \<Rightarrow> string \<Rightarrow> jsval" where
  "lookup_out out k =
     (case map_of out k of
        Some v \<Rightarrow> v
      | None \<Rightarrow> if k \<in> set object_prototype_keys then JInherited k else JStr [])"

section \<open>The handler of \<^verbatim>\<open>GET /api/scrape\<close> (part\_000, lines 54 to 154)\<close>

text \<open>\<^verbatim>\<open>const TTL = 15 * 60 * 1000\<close>, in milliseconds like \<^verbatim>\<open>Date.now()\<close>.\<close>

definition TTL :: int where
  "TTL = 15 * 60 * 1000"

text \<open>
  \<^verbatim>\<open>const { url, fields = "" } = req.query;\<close>
  \<^verbatim>\<open>const wanted = String(fields).split(",").map(s => s.trim()).filter(Boolean);\<close>
\<close>

definition parse_wanted :: "string option \<Rightarrow> string list" where
  "parse_wanted f =
     filter (\<lambda>x. x \<noteq> []) (map trim (split_comma (case f of None \<Rightarrow> [] | Some x \<Rightarrow> x)))"

text \<open>\<^verbatim>\<open>const cacheKey = `${url}::${wanted.join(",")}`;\<close>\<close>

definition cacheKey :: "string \<Rightarrow> string list \<Rightarrow> string" where
  "cacheKey u wanted = u @ ''::'' @ join_comma wanted"

text \<open>\<^verbatim>\<open>/\.costco\.ca$/.test(hostname)\<close>: without the \<^verbatim>\<open>m\<close> flag \<^verbatim>\<open>$\<close> is the end of the input.\<close>

definition ends_with :: "string \<Rightarrow> string \<Rightarrow> bool" where
  "ends_with s suf = starts_with (rev s) (rev suf)"

definition isCostco :: "string \<Rightarrow> bool" where
  "isCostco hostname = ends_with hostname ''.costco.ca''"

text \<open>The guard of the fast path, line 70.\<close>

definition fast_path :: "string \<Rightarrow> string list \<Rightarrow> bool" where
  "fast_path hostname wanted =
     (isCostco hostname \<and> (''c_price'' \<in> set wanted \<or> ''c_title'' \<in> set wanted))"

text \<open>\<^verbatim>\<open>{ headers: wanted, values: wanted.map(k => out[k] ?? ""), raw: out }\<close>\<close>

definition result_of :: "string list \<Rightarrow> (string \<times> jsval) list \<Rightarrow> payload" where
  "result_of wanted out =
     \<lparr>headers = wanted, values_arr = map (lookup_out out) wanted, raw = out\<rparr>"

text \<open>Lines 73 and 74: \<^verbatim>\<open>out\<close> on the fast path.\<close>

definition costco_out :: "string list \<Rightarrow> meta \<Rightarrow> (string \<times> jsval) list" where
  "costco_out wanted m =
     (let out1 = (if ''c_price'' \<in> set wanted
                  then AList.update ''c_price'' (JStr (c_price m)) [] else []);
          out2 = (if ''c_title'' \<in> set wanted
                  then AList.update ''c_title'' (JStr (c_title m)) out1 else out1)
      in out2)"

text \<open>
  The \<^verbatim>\<open>catch\<close> block: \<^verbatim>\<open>res.status(500).json({ error: e.message || "scrape error" })\<close>.
\<close>

definition failure :: "string \<Rightarrow> response" where
  "failure m =
     \<lparr>status = 500, cache_control = None, body = Error (if m = [] then ''scrape error'' else m)\<rparr>"

definition bad_request :: response where
  "bad_request = \<lparr>status = 400, cache_control = None, body = Error ''Missing url or fields''\<rparr>"

text \<open>
  The awaited page calls in order.  The first one that rejects ends the run with its
  message; the calls made so far are logged.
\<close>

fun run_steps :: "(step \<Rightarrow> string option) \<Rightarrow> step list \<Rightarrow> string option \<times> event list" where
  "run_steps f [] = (None, [])"
| "run_steps f (st # sts) =
     (case f st of
        Some m \<Rightarrow> (Some m, [EvStep st])
      | None \<Rightarrow> (case run_steps f sts of (r, evs) \<Rightarrow> (r, EvStep st # evs)))"

text \<open>
  Lines 83 to 149, the headless browser path.  Every rejected \<^verbatim>\<open>await\<close> and the
  \<^verbatim>\<open>TypeError\<close> of the loop header leave through the \<^verbatim>\<open>catch\<close> block; the only
  \<^verbatim>\<open>context.close()\<close> is the one after the extract loop.
\<close>

definition browser_path ::
  "world \<Rightarrow> string \<Rightarrow> string list \<Rightarrow> string \<Rightarrow> state \<Rightarrow> response \<times> state \<times> event list" where
  "browser_path w u wanted key s =
     (case getBrowser s of
        (p, s1, ev1) \<Rightarrow>
          let s2 = settle (launch w) s1 in
          (case await (launch w) p of
             Inl m \<Rightarrow> (failure m, s2, ev1)
           | Inr b \<Rightarrow>
               let c = contexts s2 in
               (case newContext w of
                  Some m \<Rightarrow> (failure m, s2, ev1 @ [EvNewContext c])
                | None \<Rightarrow>
                    let s3 = s2\<lparr>contexts := Suc c, live := c # live s2\<rparr> in
                    (case run_steps (page_step w)
                            [NewPage, Route, SetExtraHTTPHeaders, Goto u, WaitForTimeout] of
                       (Some m, ev2) \<Rightarrow> (failure m, s3, ev1 @ EvNewContext c # ev2)
                     | (None, ev2) \<Rightarrow>
                         (case extract_loop (query w) 0 wanted [] of
                            Inl m \<Rightarrow> (failure m, s3, ev1 @ EvNewContext c # ev2)
                          | Inr out \<Rightarrow>
                              (case close_context w of
                                 Some m \<Rightarrow>
                                   (failure m, s3, ev1 @ EvNewContext c # ev2 @ [EvClose c])
                               | None \<Rightarrow>
                                   let result = result_of wanted out in
                                   (\<lparr>status = 200,
                                     cache_control = Some ''public, max-age=900'',
                                     body = Data result\<rparr>,
                                    s3\<lparr>live := remove1 c (live s3),
                                       cache := (cache s3)(key \<mapsto> (now_store w, result))\<rparr>,
                                    ev1 @ EvNewContext c # ev2 @ [EvClose c])))))))"

text \<open>
  Lines 64 to 149, what the handler does once the cache has no usable entry: the URL is
  parsed, then the fast path or the browser path runs.
\<close>

definition after_miss ::
  "world \<Rightarrow> string \<Rightarrow> string list \<Rightarrow> string \<Rightarrow> state \<Rightarrow> response \<times> state \<times> event list" where
  "after_miss w u wanted key s =
     (case hostname_of w u of
        None \<Rightarrow> (failure ''Invalid URL'', s, [])
      | Some h \<Rightarrow>
          let hostname = map to_lower h in
          if fast_path hostname wanted then
            (case fetchCostcoMeta (fetch w) u of
               Some m \<Rightarrow>
                 let result = result_of wanted (costco_out wanted m) in
                 (\<lparr>status = 200, cache_control = None, body = Data result\<rparr>,
                  s\<lparr>cache := (cache s)(key \<mapsto> (now_store w, result))\<rparr>,
                  [EvFetch u])
             | None \<Rightarrow>
                 (case browser_path w u wanted key s of
                    (r, s', evs) \<Rightarrow> (r, s', EvFetch u # evs)))
          else browser_path w u wanted key s)"

text \<open>
  The whole handler: the response sent, the state left behind, and the calls made.
  Lines 56 to 62 validate the request and consult the cache:
  \<^verbatim>\<open>if (hit && Date.now() - hit.t < TTL) return res.json(hit.data);\<close>
\<close>

definition scrape :: "world \<Rightarrow> request \<Rightarrow> state \<Rightarrow> response \<times> state \<times> event list" where
  "scrape w req s =
     (let wanted = parse_wanted (fields_param req) in
      case url req of
        None \<Rightarrow> (bad_request, s, [])
      | Some u \<Rightarrow>
          if u = [] \<or> wanted = [] then (bad_request, s, [])
          else
            let key = cacheKey u wanted in
            (case cache s key of
               None \<Rightarrow> after_miss w u wanted key s
             | Some (t, d) \<Rightarrow>
                 if now_check w - t < TTL
                 then (\<lparr>status = 200, cache_control = None, body = Data d\<rparr>, s, [])
                 else after_miss w u wanted key s))"

text \<open>
  The process with callers that overlap in time: every \<^verbatim>\<open>getBrowser()\<close> call is one
  atomic \<open>Call\<close>, wherever it comes from; \<open>Settles r\<close> is the moment the launch in flight
  finishes; \<open>Handle w req\<close> is a whole request that runs without another one in between.
  \<open>run\<close> returns the promises handed to the \<open>Call\<close>s, the calls made to the outside
  and the final state.
\<close>

datatype action = Call | Settles "string option" | Handle world request

fun run :: "action list \<Rightarrow> state \<Rightarrow> promise list \<times> event list \<times> state" where
  "run [] s = ([], [], s)"
| "run (Call # as) s =
     (case getBrowser s of
        (p, s1, ev) \<Rightarrow> (case run as s1 of (ps, evs, s2) \<Rightarrow> (p # ps, ev @ evs, s2)))"
| "run (Settles r # as) s = run as (settle r s)"
| "run (Handle w req # as) s =
     (case scrape w req s of
        (resp, s1, ev) \<Rightarrow> (case run as s1 of (ps, evs, s2) \<Rightarrow> (ps, ev @ evs, s2)))"

text \<open>The launch a promise belongs to.\<close>

fun launch_no :: "promise \<Rightarrow> nat" where
  "launch_no (Promise n st) = n"

text \<open>
  The invariant of the singleton: no promise and no launch yet, or the promise of the
  first launch and exactly one launch.
\<close>

definition singleton :: "state \<Rightarrow> bool" where
  "singleton s =
     (case browserPromise s of
        None \<Rightarrow> launches s = 0
      | Some p \<Rightarrow> launch_no p = 1 \<and> launches s = 1)"

section \<open>Example requests and worlds\<close>

definition get :: "string \<Rightarrow> string \<Rightarrow> request" where
  "get u f = \<lparr>url = Some u, fields_param = Some f\<rparr>"

definition amazon_url :: string where
  "amazon_url = ''https://www.amazon.ca/dp/B0''"

definition costco_url :: string where
  "costco_url = ''https://www.costco.ca/p.html''"

definition example_hosts :: "string \<Rightarrow> string option" where
  "example_hosts u =
     (if u = amazon_url then Some ''www.amazon.ca''
      else if u = costco_url then Some ''www.costco.ca''
      else None)"

text \<open>An element whose text and whose \<^verbatim>\<open>content\<close> attribute are both \<open>t\<close>.\<close>

definition elem :: "string \<Rightarrow> element" where
  "elem t = \<lparr>getAttribute_content = Inr (Some t), textContent = Inr (Some t)\<rparr>"

text \<open>
  A world in which every call resolves.  The page shows a price of \<^verbatim>\<open>$1,234.56\<close> under
  \<^verbatim>\<open>#priceblock_ourprice\<close> and carries the price meta tag with content \<^verbatim>\<open>19.99\<close>; the
  static fetch returns the same meta tag.
\<close>

definition costco_html :: string where
  "costco_html = ''<meta property='product:price:amount' content='19.99'>''"

definition calm :: world where
  "calm =
     \<lparr>now_check = 0, now_store = 0, hostname_of = example_hosts,
      fetch = (\<lambda>u. Response True (Some costco_html)),
      launch = None, newContext = None, page_step = (\<lambda>st. None),
      query = (\<lambda>n sel.
         if sel = ''#priceblock_ourprice'' then Inr (Some (elem '' $1,234.56 ''))
         else if sel = ''meta[property='product:price:amount']'' then Inr (Some (elem ''19.99''))
         else Inr None),
      close_context = None\<rparr>"

text \<open>The same world, but the navigation runs into its timeout.\<close>

definition slow :: world where
  "slow = calm\<lparr>page_step :=
            (\<lambda>st. case st of Goto u \<Rightarrow> Some ''Timeout 30000ms exceeded'' | _ \<Rightarrow> None)\<rparr>"

text \<open>The same world, but the static fetch fails.\<close>

definition offline :: world where
  "offline = calm\<lparr>fetch := (\<lambda>u. NetworkError)\<rparr>"

text \<open>
  The same world with a URL parser that knows every URL under \<^verbatim>\<open>https://www.amazon.ca/\<close>.
\<close>

definition amazon_hosts :: "string \<Rightarrow> string option" where
  "amazon_hosts u = (if starts_with u ''https://www.amazon.ca/'' then Some ''www.amazon.ca'' else None)"

definition amazon :: world where
  "amazon = calm\<lparr>hostname_of := amazon_hosts\<rparr>"

text \<open>
  A state whose cache holds one entry, stored at time 0 for the Amazon price, with an
  older price than the page shows now.
\<close>

definition stored :: payload where
  "stored = \<lparr>headers = [''price''], values_arr = [JNum (99999 / 100)],
             raw = [(''price'', JNum (99999 / 100))]\<rparr>"

definition warm :: state where
  "warm = initial\<lparr>cache :=
            (\<lambda>k. if k = cacheKey amazon_url [''price''] then Some (0, stored) else None)\<rparr>"

section \<open>Evaluation\<close>

text \<open>The equations that evaluate the handler on a concrete request.\<close>

lemmas ev = scrape_def after_miss_def browser_path_def get_def parse_wanted_def trim_def is_space_def
  cacheKey_def calm_def slow_def offline_def example_hosts_def amazon_url_def costco_url_def initial_def
  fast_path_def isCostco_def ends_with_def to_lower_def getBrowser_def settle_def candidates_def selectors_def
  object_prototype_keys_def read_value_def elem_def normalize_def parseFloat_def strip_price_def is_digit_def
  digits_val_def digit_val_def truthy_def result_of_def lookup_out_def failure_def TTL_def costco_out_def
  fetchCostcoMeta_def costco_html_def group1_def meta_here_def one_quote_def quote_def
  content_here_def to_upper_def Let_def bad_request_def

section \<open>The value normalizer: properties\<close>

lemma strip_price_alphabet:
  "c \<in> set (strip_price v) \<Longrightarrow> is_digit c \<or> c = CHR ''.'' \<or> c = CHR '',''"
  by (auto simp: strip_price_def)

lemma replace_first_comma_alphabet:
  "set (replace_first_comma s) \<subseteq> insert (CHR ''.'') (set s)"
  by (induction s) auto

text \<open>What reaches \<^verbatim>\<open>parseFloat\<close> holds digits, periods and commas only.\<close>

lemma cleaned_alphabet:
  "c \<in> set (replace_first_comma (strip_price v)) \<Longrightarrow> is_digit c \<or> c = CHR ''.'' \<or> c = CHR '',''"
  using replace_first_comma_alphabet [of "strip_price v"] strip_price_alphabet [of c v] by auto

lemma strip_price_filter:
  "strip_price v = filter (\<lambda>c. c \<in> set ''0123456789.,'') v"
  unfolding strip_price_def is_digit_def by (rule filter_cong) auto

text \<open>Parsing fails exactly when no decimal literal starts the string.\<close>

lemma parseFloat_None_iff:
  "parseFloat s = None \<longleftrightarrow>
     \<not> (\<exists>d r. s = d # r \<and> is_digit d) \<and> \<not> (\<exists>d r. s = CHR ''.'' # d # r \<and> is_digit d)"
proof (cases s)
  case Nil
  then show ?thesis by (simp add: parseFloat_def)
next
  case (Cons a list)
  show ?thesis
  proof (cases "is_digit a")
    case True
    with Cons show ?thesis by (simp add: parseFloat_def Let_def)
  next
    case False
    with Cons show ?thesis
      by (cases list) (auto simp add: parseFloat_def Let_def is_digit_def split: if_splits)
  qed
qed

text \<open>
  C1, as the code has it.  For a field whose name contains \<^verbatim>\<open>price\<close> and a non-empty
  extracted text, the normalizer keeps the digits, commas and periods, turns the first
  comma into a period and parses the result; when that fails the text is returned
  unchanged.  \<^verbatim>\<open>CDN$ 19.99\<close> becomes 19.99 and \<^verbatim>\<open>Free\<close> stays the string \<^verbatim>\<open>Free\<close>.
  \<^verbatim>\<open>$1,234.56\<close> becomes 1.234: the comma becomes the first period and parsing stops at
  the second.
\<close>

theorem price_normalization:
  assumes "str_includes key ''price''" and "txt \<noteq> []"
  shows "normalize key (Some txt) =
           (case parseFloat (replace_first_comma (filter (\<lambda>c. c \<in> set ''0123456789.,'') txt)) of
              None \<Rightarrow> JStr txt
            | Some parsed \<Rightarrow> JNum parsed)
         \<and> normalize key (Some ''$1,234.56'') = JNum (1234 / 1000)
         \<and> normalize key (Some ''CDN$ 19.99'') = JNum (1999 / 100)
         \<and> normalize key (Some ''Free'') = JStr ''Free''"
  using assms
  by (simp add: normalize_def strip_price_filter [symmetric])
     (simp add: parseFloat_def strip_price_def is_digit_def digits_val_def digit_val_def)

text \<open>C1, witness: the field \<^verbatim>\<open>c_price\<close> with the text \<^verbatim>\<open>19,99 $\<close>.\<close>

theorem price_normalization_witness:
  "str_includes ''c_price'' ''price'' \<and> ''19,99 $'' \<noteq> []
   \<and> normalize ''c_price'' (Some ''19,99 $'') = JNum (1999 / 100)
   \<and> normalize ''c_price'' (Some ''$1,234.56'') = JNum (1234 / 1000)"
  using price_normalization [of "''c_price''" "''19,99 $''"]
  by (simp add: parseFloat_def is_digit_def digits_val_def digit_val_def)

text \<open>C1 as the spec states it fails: \<^verbatim>\<open>$1,234.56\<close> does not normalize to 1234.56.\<close>

theorem thousands_separator_counterexample:
  "normalize ''price'' (Some ''$1,234.56'') \<noteq> JNum (123456 / 100)"
  by (simp add: normalize_def parseFloat_def strip_price_def is_digit_def digits_val_def digit_val_def)

section \<open>The browser path: what a run leaves behind\<close>

lemma run_steps_events: "run_steps f sts = (r, evs) \<Longrightarrow> set evs \<subseteq> EvStep ` set sts"
  by (induction sts arbitrary: r evs) (auto split: option.splits prod.splits)

lemma run_steps_None: "run_steps f sts = (None, evs) \<Longrightarrow> evs = map EvStep sts"
  by (induction sts arbitrary: evs) (auto split: option.splits prod.splits)

lemma getBrowser_events:
  "getBrowser s = (p, s1, ev) \<Longrightarrow> ev = (if browserPromise s = None then [EvLaunch] else [])"
  by (auto simp: getBrowser_def Let_def split: option.splits)

lemma getBrowser_frame:
  "getBrowser s = (p, s1, ev) \<Longrightarrow> cache s1 = cache s \<and> contexts s1 = contexts s \<and> live s1 = live s"
  by (auto simp: getBrowser_def Let_def split: option.splits)

lemma settle_frame:
  "cache (settle r s) = cache s \<and> contexts (settle r s) = contexts s \<and> live (settle r s) = live s
   \<and> launches (settle r s) = launches s"
  by (auto simp: settle_def split: option.splits promise.splits settlement.splits)

lemma browser_path_cases:
  assumes "browser_path w u wanted key s = (r, s', evs)"
  obtains
    (failed) m where "r = failure m" "cache s' = cache s"
  | (succeeded) out where
      "extract_loop (query w) 0 wanted [] = Inr out"
      "r = \<lparr>status = 200, cache_control = Some ''public, max-age=900'',
             body = Data (result_of wanted out)\<rparr>"
      "cache s' = (cache s)(key \<mapsto> (now_store w, result_of wanted out))"
      "evs = (if browserPromise s = None then [EvLaunch] else [])
             @ EvNewContext (contexts s)
               # map EvStep [NewPage, Route, SetExtraHTTPHeaders, Goto u, WaitForTimeout]
             @ [EvClose (contexts s)]"
      "live s' = live s" "contexts s' = Suc (contexts s)"
proof -
  obtain p s1 ev1 where g: "getBrowser s = (p, s1, ev1)"
    by (cases "getBrowser s") auto
  note fr = getBrowser_frame [OF g] settle_frame [of "launch w" s1]
  note ev = getBrowser_events [OF g]
  show thesis
  proof (cases "await (launch w) p")
    case (Inl m)
    with assms g fr show ?thesis
      by (intro failed [of m]) (auto simp: browser_path_def Let_def)
  next
    case (Inr b)
    show ?thesis
    proof (cases "newContext w")
      case (Some m)
      with assms g fr Inr show ?thesis
        by (intro failed [of m]) (auto simp: browser_path_def Let_def)
    next
      case None
      obtain r2 ev2 where st: "run_steps (page_step w)
          [NewPage, Route, SetExtraHTTPHeaders, Goto u, WaitForTimeout] = (r2, ev2)"
        by (cases "run_steps (page_step w) [NewPage, Route, SetExtraHTTPHeaders, Goto u, WaitForTimeout]") auto
      show ?thesis
      proof (cases r2)
        case (Some m)
        with assms g fr Inr None st show ?thesis
          by (intro failed [of m]) (auto simp: browser_path_def Let_def)
      next
        case r2: None
        show ?thesis
        proof (cases "extract_loop (query w) 0 wanted []")
          case (Inl m)
          with assms g fr Inr None st r2 show ?thesis
            by (intro failed [of m]) (auto simp: browser_path_def Let_def)
        next
          case out: (Inr out)
          show ?thesis
          proof (cases "close_context w")
            case (Some m)
            with assms g fr Inr None st r2 out show ?thesis
              by (intro failed [of m]) (auto simp: browser_path_def Let_def)
          next
            case cl: None
            have e2: "ev2 = map EvStep [NewPage, Route, SetExtraHTTPHeaders, Goto u, WaitForTimeout]"
              using st r2 run_steps_None by blast
            from assms g fr Inr None st r2 out cl ev e2 show ?thesis
              by (intro succeeded [of out]) (auto simp: browser_path_def Let_def)
          qed
        qed
      qed
    qed
  qed
qed


lemma browser_path_singleton:
  assumes "browser_path w u wanted key s = (r, s', evs)"
  shows "browserPromise s' = browserPromise (settle (launch w) (fst (snd (getBrowser s))))
         \<and> launches s' = launches (fst (snd (getBrowser s)))
         \<and> count_list evs EvLaunch = (if browserPromise s = None then 1 else 0)"
proof -
  obtain p s1 ev1 where g: "getBrowser s = (p, s1, ev1)"
    by (cases "getBrowser s") auto
  obtain r2 ev2 where st: "run_steps (page_step w)
      [NewPage, Route, SetExtraHTTPHeaders, Goto u, WaitForTimeout] = (r2, ev2)"
    by (cases "run_steps (page_step w) [NewPage, Route, SetExtraHTTPHeaders, Goto u, WaitForTimeout]") auto
  have "EvLaunch \<notin> set ev2"
    using run_steps_events [OF st] by auto
  then have e2: "count_list ev2 EvLaunch = 0"
    by (simp add: count_list_0_iff)
  have e1: "count_list ev1 EvLaunch = (if browserPromise s = None then 1 else 0)"
    using getBrowser_events [OF g] by auto
  from assms g st e1 e2 settle_frame [of "launch w" s1] show ?thesis
    by (auto simp: browser_path_def Let_def split: sum.splits option.splits)
qed

text \<open>
  Once the context exists, any exit other than the 200 answer leaves it open and calls
  no \<^verbatim>\<open>context.close()\<close> (a rejected close apart).
\<close>

lemma browser_path_leak:
  assumes "browser_path w u wanted key s = (r, s', evs)"
      and "EvNewContext (contexts s) \<in> set evs" "newContext w = None"
      and "status r \<noteq> 200" "close_context w = None"
  shows "live s' = contexts s # live s \<and> EvClose (contexts s) \<notin> set evs"
proof -
  obtain p s1 ev1 where g: "getBrowser s = (p, s1, ev1)"
    by (cases "getBrowser s") auto
  obtain r2 ev2 where st: "run_steps (page_step w)
      [NewPage, Route, SetExtraHTTPHeaders, Goto u, WaitForTimeout] = (r2, ev2)"
    by (cases "run_steps (page_step w) [NewPage, Route, SetExtraHTTPHeaders, Goto u, WaitForTimeout]") auto
  have e2: "EvClose (contexts s) \<notin> set ev2" "EvNewContext (contexts s) \<notin> set ev2"
    using run_steps_events [OF st] by auto
  have e1: "EvClose (contexts s) \<notin> set ev1" "EvNewContext (contexts s) \<notin> set ev1"
    using getBrowser_events [OF g] by auto
  have c: "contexts (settle (launch w) s1) = contexts s" "live (settle (launch w) s1) = live s"
    using getBrowser_frame [OF g] settle_frame [of "launch w" s1] by simp_all
  from assms g st e1 e2 c show ?thesis
    by (auto simp: browser_path_def Let_def split: sum.splits option.splits)
qed

section \<open>The handler: its exits\<close>

lemma after_miss_cases:
  assumes "after_miss w u wanted key s = (r, s', evs)"
  obtains
    (failed) m where "r = failure m" "cache s' = cache s"
  | (static) h m where
      "hostname_of w u = Some h" "fast_path (map to_lower h) wanted"
      "fetchCostcoMeta (fetch w) u = Some m"
      "r = \<lparr>status = 200, cache_control = None,
             body = Data (result_of wanted (costco_out wanted m))\<rparr>"
      "s' = s\<lparr>cache := (cache s)(key \<mapsto> (now_store w, result_of wanted (costco_out wanted m)))\<rparr>"
      "evs = [EvFetch u]"
  | (browser) out where
      "extract_loop (query w) 0 wanted [] = Inr out"
      "r = \<lparr>status = 200, cache_control = Some ''public, max-age=900'',
             body = Data (result_of wanted out)\<rparr>"
      "cache s' = (cache s)(key \<mapsto> (now_store w, result_of wanted out))"
      "EvStep (Goto u) \<in> set evs" "count_list evs (EvClose (contexts s)) = 1"
proof (cases "hostname_of w u")
  case None
  with assms show ?thesis
    by (intro failed [of "''Invalid URL''"]) (auto simp: after_miss_def)
next
  case (Some h)
  obtain r0 s0 evs0 where bp: "browser_path w u wanted key s = (r0, s0, evs0)"
    by (cases "browser_path w u wanted key s") auto
  note fail_rule = failed
  have via_browser: thesis if "r = r0" "s' = s0" "evs = evs0 \<or> evs = EvFetch u # evs0"
    using bp
  proof (cases rule: browser_path_cases)
    case (failed m)
    with that show ?thesis by (intro fail_rule [of m]) auto
  next
    case (succeeded out)
    with that show ?thesis by (intro browser [of out]) auto
  qed
  show ?thesis
  proof (cases "fast_path (map to_lower h) wanted")
    case False
    with assms Some bp show ?thesis
      by (intro via_browser) (auto simp: after_miss_def Let_def)
  next
    case True
    show ?thesis
    proof (cases "fetchCostcoMeta (fetch w) u")
      case None
      with assms Some True bp show ?thesis
        by (intro via_browser) (auto simp: after_miss_def Let_def)
    next
      case m: (Some m)
      with assms Some True show ?thesis
        by (intro static [of h m]) (auto simp: after_miss_def Let_def)
    qed
  qed
qed

lemma scrape_valid:
  assumes "url req = Some u" "u \<noteq> []" "parse_wanted (fields_param req) = wanted" "wanted \<noteq> []"
  shows "scrape w req s =
     (case cache s (cacheKey u wanted) of
        None \<Rightarrow> after_miss w u wanted (cacheKey u wanted) s
      | Some (t, d) \<Rightarrow>
          if now_check w - t < TTL
          then (\<lparr>status = 200, cache_control = None, body = Data d\<rparr>, s, [])
          else after_miss w u wanted (cacheKey u wanted) s)"
  using assms by (simp add: scrape_def Let_def)

lemma scrape_invalid:
  assumes "url req = None \<or> url req = Some [] \<or> parse_wanted (fields_param req) = []"
  shows "scrape w req s = (bad_request, s, [])"
  using assms by (auto simp: scrape_def Let_def split: option.splits)

lemma scrape_200_valid:
  assumes "scrape w req s = (r, s', evs)" "status r = 200"
  obtains u where "url req = Some u" "u \<noteq> []" "parse_wanted (fields_param req) \<noteq> []"
  using assms by (auto simp: scrape_def Let_def bad_request_def split: option.splits if_splits)

lemma scrape_miss:
  assumes "url req = Some u" "u \<noteq> []" "parse_wanted (fields_param req) = wanted" "wanted \<noteq> []"
      and "\<not> (\<exists>t d. cache s (cacheKey u wanted) = Some (t, d) \<and> now_check w - t < TTL)"
  shows "scrape w req s = after_miss w u wanted (cacheKey u wanted) s"
proof (cases "cache s (cacheKey u wanted)")
  case None
  with scrape_valid [OF assms(1-4), of w s] show ?thesis by simp
next
  case (Some e)
  obtain t d where e: "e = (t, d)" by (cases e)
  with assms(5) Some have "\<not> now_check w - t < TTL" by blast
  with scrape_valid [OF assms(1-4), of w s] Some e show ?thesis by simp
qed

lemma after_miss_frame:
  assumes "after_miss w u wanted key s = (r, s', evs)" "k \<noteq> key"
  shows "cache s' k = cache s k"
  using assms(1)
proof (cases rule: after_miss_cases)
  case (failed m)
  then show ?thesis by simp
next
  case (static h m)
  then show ?thesis using assms(2) by simp
next
  case (browser out)
  then show ?thesis using assms(2) by simp
qed

lemma after_miss_200:
  assumes "after_miss w u wanted key s = (r, s', evs)" "status r = 200"
  shows "(\<exists>d'. body r = Data d' \<and> cache s' key = Some (now_store w, d'))
         \<and> (EvFetch u \<in> set evs \<or> EvStep (Goto u) \<in> set evs)"
  using assms(1)
proof (cases rule: after_miss_cases)
  case (failed m)
  with assms(2) show ?thesis by (simp add: failure_def)
next
  case (static h m)
  then show ?thesis by simp
next
  case (browser out)
  then show ?thesis by simp
qed

lemma after_miss_not_200:
  assumes "after_miss w u wanted key s = (r, s', evs)" "status r \<noteq> 200"
  shows "status r = 500 \<and> cache s' = cache s"
  using assms(1)
proof (cases rule: after_miss_cases)
  case (failed m)
  then show ?thesis by (simp add: failure_def)
next
  case (static h m)
  with assms(2) show ?thesis by simp
next
  case (browser out)
  with assms(2) show ?thesis by simp
qed

text \<open>
  A run in which every call resolves ends with the 200 answer, the navigation made and
  the new entry stored.
\<close>

lemma run_steps_all_None:
  "\<forall>st. f st = None \<Longrightarrow> run_steps f sts = (None, map EvStep sts)"
  by (induction sts) auto

lemma await_getBrowser:
  assumes "launch w = None" "\<forall>n m. browserPromise s \<noteq> Some (Promise n (Rejected m))"
  shows "\<exists>b. await (launch w) (fst (getBrowser s)) = Inr b"
proof (cases "browserPromise s")
  case None
  with assms(1) show ?thesis by (simp add: getBrowser_def Let_def)
next
  case (Some p)
  obtain n st where p: "p = Promise n st" by (cases p)
  with Some assms show ?thesis
    by (cases st) (auto simp: getBrowser_def)
qed

lemma browser_path_success:
  assumes "browser_path w u wanted key s = (r, s', evs)"
      and "launch w = None" "\<forall>n m. browserPromise s \<noteq> Some (Promise n (Rejected m))"
      and "newContext w = None" "\<forall>st. page_step w st = None" "close_context w = None"
      and "extract_loop (query w) 0 wanted [] = Inr out"
  shows "r = \<lparr>status = 200, cache_control = Some ''public, max-age=900'',
               body = Data (result_of wanted out)\<rparr>
         \<and> EvStep (Goto u) \<in> set evs
         \<and> cache s' key = Some (now_store w, result_of wanted out)"
  using assms(1)
proof (cases rule: browser_path_cases)
  case (failed m)
  obtain p s1 ev1 where g: "getBrowser s = (p, s1, ev1)"
    by (cases "getBrowser s") auto
  from await_getBrowser [OF assms(2,3)] g obtain b where aw: "await (launch w) p = Inr b"
    by auto
  note st = run_steps_all_None [OF assms(5), of "[NewPage, Route, SetExtraHTTPHeaders, Goto u, WaitForTimeout]"]
  from assms(1) g aw assms(4,6,7) st have "status r = 200"
    by (auto simp: browser_path_def Let_def simp del: run_steps.simps)
  with failed(1) show ?thesis by (simp add: failure_def)
next
  case (succeeded out')
  with assms(7) show ?thesis by simp
qed

lemma after_miss_fast:
  assumes "after_miss w u wanted key s = (r, s', evs)"
      and "hostname_of w u = Some h" "fast_path (map to_lower h) wanted"
      and "fetchCostcoMeta (fetch w) u = Some m"
  shows "r = \<lparr>status = 200, cache_control = None,
               body = Data (result_of wanted (costco_out wanted m))\<rparr>
         \<and> evs = [EvFetch u]
         \<and> cache s' key = Some (now_store w, result_of wanted (costco_out wanted m))"
  using assms by (auto simp: after_miss_def Let_def)

lemma after_miss_browser:
  assumes "after_miss w u wanted key s = (r, s', evs)"
      and "hostname_of w u = Some h"
      and "fast_path (map to_lower h) wanted \<longrightarrow> fetchCostcoMeta (fetch w) u = None"
      and "launch w = None" "\<forall>n m. browserPromise s \<noteq> Some (Promise n (Rejected m))"
      and "newContext w = None" "\<forall>st. page_step w st = None" "close_context w = None"
      and "extract_loop (query w) 0 wanted [] = Inr out"
  shows "r = \<lparr>status = 200, cache_control = Some ''public, max-age=900'',
               body = Data (result_of wanted out)\<rparr>
         \<and> EvStep (Goto u) \<in> set evs
         \<and> cache s' key = Some (now_store w, result_of wanted out)"
proof -
  obtain r0 s0 evs0 where bp: "browser_path w u wanted key s = (r0, s0, evs0)"
    by (cases "browser_path w u wanted key s") auto
  note ok = browser_path_success [OF bp assms(4-9)]
  from assms(1,2,3) bp have "r = r0 \<and> s' = s0 \<and> (evs = evs0 \<or> evs = EvFetch u # evs0)"
    by (auto simp: after_miss_def Let_def split: if_splits)
  with ok show ?thesis by auto
qed

text \<open>An entry within its time to live, and an entry past it.\<close>

lemma cache_entry_ttl_base:
  assumes "url req = Some u" "u \<noteq> []" "parse_wanted (fields_param req) = wanted" "wanted \<noteq> []"
      and "cache s (cacheKey u wanted) = Some (t, d)"
      and "scrape w req s = (r, s', evs)"
  shows "TTL = 900000
     \<and> (now_check w - t < TTL \<longrightarrow>
          r = \<lparr>status = 200, cache_control = None, body = Data d\<rparr> \<and> s' = s \<and> evs = [])
     \<and> (\<not> now_check w - t < TTL \<longrightarrow>
          (r, s', evs) = after_miss w u wanted (cacheKey u wanted) s
          \<and> (status r = 200 \<longrightarrow>
                (\<exists>d'. body r = Data d' \<and> cache s' (cacheKey u wanted) = Some (now_store w, d'))
                \<and> (EvFetch u \<in> set evs \<or> EvStep (Goto u) \<in> set evs))
          \<and> (status r \<noteq> 200 \<longrightarrow> status r = 500 \<and> cache s' = cache s))
     \<and> (\<forall>k. k \<noteq> cacheKey u wanted \<longrightarrow> cache s' k = cache s k)"
proof -
  let ?key = "cacheKey u wanted"
  have sc: "scrape w req s =
      (if now_check w - t < TTL
       then (\<lparr>status = 200, cache_control = None, body = Data d\<rparr>, s, [])
       else after_miss w u wanted ?key s)"
    using scrape_valid [OF assms(1-4), of w s] assms(5) by simp
  have hit: "r = \<lparr>status = 200, cache_control = None, body = Data d\<rparr> \<and> s' = s \<and> evs = []"
    if "now_check w - t < TTL"
    using sc that assms(6) by simp
  have miss: "after_miss w u wanted ?key s = (r, s', evs)" if "\<not> now_check w - t < TTL"
    using sc that assms(6) by simp
  have frame: "cache s' k = cache s k" if "k \<noteq> ?key" for k
  proof (cases "now_check w - t < TTL")
    case True
    with hit show ?thesis by simp
  next
    case False
    from after_miss_frame [OF miss [OF False] that] show ?thesis .
  qed
  have ttl: "TTL = 900000" by (simp add: TTL_def)
  show ?thesis
  proof (intro conjI impI allI)
    show "TTL = 900000" by (rule ttl)
  next
    assume "now_check w - t < TTL"
    with hit show "r = \<lparr>status = 200, cache_control = None, body = Data d\<rparr>" by simp
  next
    assume "now_check w - t < TTL"
    with hit show "s' = s" by simp
  next
    assume "now_check w - t < TTL"
    with hit show "evs = []" by simp
  next
    assume "\<not> now_check w - t < TTL"
    with miss show "(r, s', evs) = after_miss w u wanted ?key s" by simp
  next
    assume "\<not> now_check w - t < TTL" "status r = 200"
    with miss after_miss_200 show
      "\<exists>d'. body r = Data d' \<and> cache s' ?key = Some (now_store w, d')" by blast
  next
    assume "\<not> now_check w - t < TTL" "status r = 200"
    with miss after_miss_200 show "EvFetch u \<in> set evs \<or> EvStep (Goto u) \<in> set evs" by blast
  next
    assume "\<not> now_check w - t < TTL" "status r \<noteq> 200"
    with miss after_miss_not_200 show "status r = 500" by blast
  next
    assume "\<not> now_check w - t < TTL" "status r \<noteq> 200"
    with miss after_miss_not_200 show "cache s' = cache s" by blast
  next
    fix k assume "k \<noteq> ?key"
    with frame show "cache s' k = cache s k" by simp
  qed
qed


text \<open>
  C7.  The time to live is 15 minutes in milliseconds.  For a valid request whose key
  has an entry stored at time \<open>t\<close>: while \<open>now - t < TTL\<close> the handler answers with the
  stored payload, changes nothing and calls nothing.  From then on it does exactly what
  it does without an entry: when the static fetch of the fast path succeeds, or when
  every call of the browser path resolves, it answers 200 with the payload built from
  that fetch or from that navigation, not with the stored one, and the entry is replaced
  as a whole by the new payload with the new time; any other 200 answer also comes from
  a fetch or a navigation made for this request and replaces the entry; a failed run
  answers 500 and leaves the cache as it was.  No other entry is touched, and nothing
  ever changes a part of a stored entry.
\<close>

theorem cache_entry_ttl:
  assumes "url req = Some u" "u \<noteq> []" "parse_wanted (fields_param req) = wanted" "wanted \<noteq> []"
      and "cache s (cacheKey u wanted) = Some (t, d)"
      and "scrape w req s = (r, s', evs)"
  shows "(TTL = 900000
     \<and> (now_check w - t < TTL \<longrightarrow>
          r = \<lparr>status = 200, cache_control = None, body = Data d\<rparr> \<and> s' = s \<and> evs = [])
     \<and> (\<not> now_check w - t < TTL \<longrightarrow>
          (r, s', evs) = after_miss w u wanted (cacheKey u wanted) s
          \<and> (status r = 200 \<longrightarrow>
                (\<exists>d'. body r = Data d' \<and> cache s' (cacheKey u wanted) = Some (now_store w, d'))
                \<and> (EvFetch u \<in> set evs \<or> EvStep (Goto u) \<in> set evs))
          \<and> (status r \<noteq> 200 \<longrightarrow> status r = 500 \<and> cache s' = cache s))
     \<and> (\<forall>k. k \<noteq> cacheKey u wanted \<longrightarrow> cache s' k = cache s k))
     \<and> (\<not> now_check w - t < TTL \<and> hostname_of w u = Some h
          \<and> fast_path (map to_lower h) wanted \<and> fetchCostcoMeta (fetch w) u = Some m \<longrightarrow>
          r = \<lparr>status = 200, cache_control = None,
                body = Data (result_of wanted (costco_out wanted m))\<rparr>
          \<and> evs = [EvFetch u]
          \<and> cache s' (cacheKey u wanted) = Some (now_store w, result_of wanted (costco_out wanted m)))
     \<and> (\<not> now_check w - t < TTL \<and> hostname_of w u = Some h
          \<and> (fast_path (map to_lower h) wanted \<longrightarrow> fetchCostcoMeta (fetch w) u = None)
          \<and> launch w = None \<and> (\<forall>n e. browserPromise s \<noteq> Some (Promise n (Rejected e)))
          \<and> newContext w = None \<and> (\<forall>st. page_step w st = None) \<and> close_context w = None
          \<and> extract_loop (query w) 0 wanted [] = Inr out \<longrightarrow>
          r = \<lparr>status = 200, cache_control = Some ''public, max-age=900'',
                body = Data (result_of wanted out)\<rparr>
          \<and> EvStep (Goto u) \<in> set evs
          \<and> cache s' (cacheKey u wanted) = Some (now_store w, result_of wanted out))"
proof -
  note base = cache_entry_ttl_base [OF assms]
  have miss: "after_miss w u wanted (cacheKey u wanted) s = (r, s', evs)"
    if "\<not> now_check w - t < TTL"
    using base [THEN conjunct2, THEN conjunct2, THEN conjunct1] that
    by simp
  have fast: "\<not> now_check w - t < TTL \<and> hostname_of w u = Some h
          \<and> fast_path (map to_lower h) wanted \<and> fetchCostcoMeta (fetch w) u = Some m \<longrightarrow>
          r = \<lparr>status = 200, cache_control = None,
                body = Data (result_of wanted (costco_out wanted m))\<rparr>
          \<and> evs = [EvFetch u]
          \<and> cache s' (cacheKey u wanted) = Some (now_store w, result_of wanted (costco_out wanted m))"
  proof (rule impI)
    assume "\<not> now_check w - t < TTL \<and> hostname_of w u = Some h
          \<and> fast_path (map to_lower h) wanted \<and> fetchCostcoMeta (fetch w) u = Some m"
    then have e: "\<not> now_check w - t < TTL" and h: "hostname_of w u = Some h"
      and f: "fast_path (map to_lower h) wanted" and m: "fetchCostcoMeta (fetch w) u = Some m"
      by blast+
    show "r = \<lparr>status = 200, cache_control = None,
                body = Data (result_of wanted (costco_out wanted m))\<rparr>
          \<and> evs = [EvFetch u]
          \<and> cache s' (cacheKey u wanted) = Some (now_store w, result_of wanted (costco_out wanted m))"
      by (rule after_miss_fast [OF miss [OF e] h f m])
  qed
  have browser: "\<not> now_check w - t < TTL \<and> hostname_of w u = Some h
          \<and> (fast_path (map to_lower h) wanted \<longrightarrow> fetchCostcoMeta (fetch w) u = None)
          \<and> launch w = None \<and> (\<forall>n e. browserPromise s \<noteq> Some (Promise n (Rejected e)))
          \<and> newContext w = None \<and> (\<forall>st. page_step w st = None) \<and> close_context w = None
          \<and> extract_loop (query w) 0 wanted [] = Inr out \<longrightarrow>
          r = \<lparr>status = 200, cache_control = Some ''public, max-age=900'',
                body = Data (result_of wanted out)\<rparr>
          \<and> EvStep (Goto u) \<in> set evs
          \<and> cache s' (cacheKey u wanted) = Some (now_store w, result_of wanted out)"
  proof (rule impI)
    assume "\<not> now_check w - t < TTL \<and> hostname_of w u = Some h
          \<and> (fast_path (map to_lower h) wanted \<longrightarrow> fetchCostcoMeta (fetch w) u = None)
          \<and> launch w = None \<and> (\<forall>n e. browserPromise s \<noteq> Some (Promise n (Rejected e)))
          \<and> newContext w = None \<and> (\<forall>st. page_step w st = None) \<and> close_context w = None
          \<and> extract_loop (query w) 0 wanted [] = Inr out"
    then have e: "\<not> now_check w - t < TTL" and h: "hostname_of w u = Some h"
      and f: "fast_path (map to_lower h) wanted \<longrightarrow> fetchCostcoMeta (fetch w) u = None"
      and l: "launch w = None" and b: "\<forall>n e. browserPromise s \<noteq> Some (Promise n (Rejected e))"
      and n: "newContext w = None" and p: "\<forall>st. page_step w st = None"
      and c: "close_context w = None" and x: "extract_loop (query w) 0 wanted [] = Inr out"
      by blast+
    show "r = \<lparr>status = 200, cache_control = Some ''public, max-age=900'',
                body = Data (result_of wanted out)\<rparr>
          \<and> EvStep (Goto u) \<in> set evs
          \<and> cache s' (cacheKey u wanted) = Some (now_store w, result_of wanted out)"
      by (rule after_miss_browser [OF miss [OF e] h f l b n p c x])
  qed
  show ?thesis
    by (rule conjI [OF base conjI [OF fast browser]])
qed

text \<open>
  C7, witness: an entry stored at time 0 with the price 999.99 is served at time 899999;
  at time 900000 the page is navigated again, the answer carries the price the page
  shows now, and the entry is replaced by that payload with the time 900000.
\<close>

theorem cache_entry_ttl_witness:
  "scrape (calm\<lparr>now_check := 899999\<rparr>) (get amazon_url ''price'') warm =
     (\<lparr>status = 200, cache_control = None, body = Data stored\<rparr>, warm, [])
   \<and> (case scrape (calm\<lparr>now_check := 900000, now_store := 900000\<rparr>)
              (get amazon_url ''price'') warm of
        (r, s', evs) \<Rightarrow>
          r = \<lparr>status = 200, cache_control = Some ''public, max-age=900'',
                body = Data \<lparr>headers = [''price''], values_arr = [JNum (1234 / 1000)],
                             raw = [(''price'', JNum (1234 / 1000))]\<rparr>\<rparr>
          \<and> EvStep (Goto amazon_url) \<in> set evs
          \<and> cache s' (cacheKey amazon_url [''price'']) =
              Some (900000, \<lparr>headers = [''price''], values_arr = [JNum (1234 / 1000)],
                             raw = [(''price'', JNum (1234 / 1000))]\<rparr>))"
proof -
  let ?now = "calm\<lparr>now_check := 899999\<rparr>"
  let ?late = "calm\<lparr>now_check := 900000, now_store := 900000\<rparr>"
  let ?out = "[(''price'', JNum (1234 / 1000))]"
  have h1: "url (get amazon_url ''price'') = Some amazon_url"
    by (simp add: get_def)
  have h2: "amazon_url \<noteq> []"
    by (simp add: amazon_url_def)
  have h3: "parse_wanted (fields_param (get amazon_url ''price'')) = [''price'']"
    by (simp add: get_def parse_wanted_def trim_def is_space_def)
  have h4: "[''price''] \<noteq> ([] :: string list)"
    by simp
  have h5: "cache warm (cacheKey amazon_url [''price'']) = Some (0, stored)"
    by (simp add: warm_def)
  have p: "scrape w (get amazon_url ''price'') warm =
      (fst (scrape w (get amazon_url ''price'') warm),
       fst (snd (scrape w (get amazon_url ''price'') warm)),
       snd (snd (scrape w (get amazon_url ''price'') warm)))" for w
    by simp
  have t1: "now_check ?now - 0 < TTL"
    by (simp add: TTL_def)
  from cache_entry_ttl [OF h1 h2 h3 h4 h5 p [of ?now], THEN conjunct1] t1
  have a: "scrape ?now (get amazon_url ''price'') warm =
     (\<lparr>status = 200, cache_control = None, body = Data stored\<rparr>, warm, [])"
    by (metis p)
  have c: "\<not> now_check ?late - 0 < TTL \<and> hostname_of ?late amazon_url = Some ''www.amazon.ca''
      \<and> (fast_path (map to_lower ''www.amazon.ca'') [''price''] \<longrightarrow>
            fetchCostcoMeta (fetch ?late) amazon_url = None)
      \<and> launch ?late = None \<and> (\<forall>n e. browserPromise warm \<noteq> Some (Promise n (Rejected e)))
      \<and> newContext ?late = None \<and> (\<forall>st. page_step ?late st = None) \<and> close_context ?late = None
      \<and> extract_loop (query ?late) 0 [''price''] [] = Inr ?out"
    by (simp add: ev warm_def)
  from cache_entry_ttl [OF h1 h2 h3 h4 h5 p [of ?late], THEN conjunct2, THEN conjunct2,
      THEN mp, OF c]
  have b: "(case scrape ?late (get amazon_url ''price'') warm of
        (r, s', evs) \<Rightarrow>
          r = \<lparr>status = 200, cache_control = Some ''public, max-age=900'',
                body = Data \<lparr>headers = [''price''], values_arr = [JNum (1234 / 1000)],
                             raw = [(''price'', JNum (1234 / 1000))]\<rparr>\<rparr>
          \<and> EvStep (Goto amazon_url) \<in> set evs
          \<and> cache s' (cacheKey amazon_url [''price'']) =
              Some (900000, \<lparr>headers = [''price''], values_arr = [JNum (1234 / 1000)],
                             raw = [(''price'', JNum (1234 / 1000))]\<rparr>))"
    by (simp add: case_prod_beta result_of_def lookup_out_def)
  from a b show ?thesis by (rule conjI)
qed

section \<open>The cache key\<close>

lemma split_comma_not_Nil: "split_comma s \<noteq> []"
  by (induction s) (auto split: list.splits)

lemma split_comma_plain: "CHR '','' \<notin> set x \<Longrightarrow> split_comma x = [x]"
  by (induction x) auto

lemma split_comma_append:
  "CHR '','' \<notin> set x \<Longrightarrow> split_comma (x @ CHR '','' # r) = x # split_comma r"
  by (induction x) auto

lemma split_join:
  "xs \<noteq> [] \<Longrightarrow> \<forall>x\<in>set xs. CHR '','' \<notin> set x \<Longrightarrow> split_comma (join_comma xs) = xs"
  by (induction xs rule: join_comma.induct) (auto simp: split_comma_plain split_comma_append)

lemma split_comma_segments: "x \<in> set (split_comma s) \<Longrightarrow> CHR '','' \<notin> set x"
proof (induction s arbitrary: x)
  case Nil
  then show ?case by simp
next
  case (Cons c s)
  then show ?case
    by (cases "split_comma s") (auto split: if_splits)
qed

lemma set_trim: "set (trim s) \<subseteq> set s"
proof -
  have "set (dropWhile is_space (rev (dropWhile is_space s))) \<subseteq> set (rev (dropWhile is_space s))"
    by (meson set_dropWhileD subsetI)
  also have "\<dots> \<subseteq> set s"
    using set_dropWhileD by fastforce
  finally show ?thesis by (simp add: trim_def)
qed

lemma parse_wanted_names:
  "x \<in> set (parse_wanted f) \<Longrightarrow> x \<noteq> [] \<and> CHR '','' \<notin> set x"
  using set_trim split_comma_segments by (fastforce simp: parse_wanted_def)

lemma join_comma_Nil: "join_comma xs = [] \<Longrightarrow> \<forall>x\<in>set xs. x \<noteq> [] \<Longrightarrow> xs = []"
  by (induction xs rule: join_comma.induct) auto

lemma join_comma_inj:
  assumes "join_comma xs = join_comma ys"
      and "\<forall>x\<in>set xs. x \<noteq> [] \<and> CHR '','' \<notin> set x"
      and "\<forall>y\<in>set ys. y \<noteq> [] \<and> CHR '','' \<notin> set y"
  shows "xs = ys"
proof (cases "xs = [] \<or> ys = []")
  case True
  then show ?thesis
  proof
    assume "xs = []"
    with assms(1) have "join_comma ys = []" by simp
    with assms(3) have "ys = []" by (intro join_comma_Nil) auto
    with \<open>xs = []\<close> show ?thesis by simp
  next
    assume "ys = []"
    with assms(1) have "join_comma xs = []" by simp
    with assms(2) have "xs = []" by (intro join_comma_Nil) auto
    with \<open>ys = []\<close> show ?thesis by simp
  qed
next
  case False
  from False assms(2) have a: "split_comma (join_comma xs) = xs"
    by (intro split_join) auto
  from False assms(3) have b: "split_comma (join_comma ys) = ys"
    by (intro split_join) auto
  from a b assms(1) show ?thesis by metis
qed

lemma cacheKey_inj:
  "cacheKey u (parse_wanted f) = cacheKey u (parse_wanted g) \<longleftrightarrow> parse_wanted f = parse_wanted g"
  using join_comma_inj [of "parse_wanted f" "parse_wanted g"] parse_wanted_names
  by (auto simp: cacheKey_def)

lemma scrape_200_entry:
  assumes "scrape w req s = (r, s', evs)" "status r = 200"
  obtains u t d where "url req = Some u" "u \<noteq> []" "parse_wanted (fields_param req) \<noteq> []"
    "body r = Data d" "cache s' (cacheKey u (parse_wanted (fields_param req))) = Some (t, d)"
proof -
  from assms obtain u where v: "url req = Some u" "u \<noteq> []" "parse_wanted (fields_param req) \<noteq> []"
    by (rule scrape_200_valid)
  let ?wanted = "parse_wanted (fields_param req)"
  let ?key = "cacheKey u ?wanted"
  note sc = scrape_valid [OF v(1) v(2) refl v(3), of w s]
  have "\<exists>t d. body r = Data d \<and> cache s' ?key = Some (t, d)"
  proof (cases "cache s ?key")
    case None
    with sc assms(1) have "after_miss w u ?wanted ?key s = (r, s', evs)" by simp
    from after_miss_200 [OF this assms(2)] show ?thesis by blast
  next
    case (Some e)
    obtain t d where e: "e = (t, d)" by (cases e)
    show ?thesis
    proof (cases "now_check w - t < TTL")
      case True
      with sc assms(1) Some e show ?thesis by auto
    next
      case False
      with sc assms(1) Some e have "after_miss w u ?wanted ?key s = (r, s', evs)" by simp
      from after_miss_200 [OF this assms(2)] show ?thesis by blast
    qed
  qed
  with v that show thesis by blast
qed

section \<open>Cache hits and the fast path\<close>

text \<open>A request changes the cache under its own key only.\<close>

lemma scrape_frame:
  assumes "scrape w req s = (r, s', evs)" "url req = Some u"
      and "k \<noteq> cacheKey u (parse_wanted (fields_param req))"
  shows "cache s' k = cache s k"
proof (cases "u = [] \<or> parse_wanted (fields_param req) = []")
  case True
  with assms(2) have "scrape w req s = (bad_request, s, [])"
    by (intro scrape_invalid) auto
  with assms(1) show ?thesis by simp
next
  case False
  let ?wanted = "parse_wanted (fields_param req)"
  let ?key = "cacheKey u ?wanted"
  from False have v: "u \<noteq> []" "?wanted \<noteq> []" by simp_all
  note sc = scrape_valid [OF assms(2) v(1) refl v(2), of w s]
  show ?thesis
  proof (cases "cache s ?key")
    case None
    with sc assms(1) have "after_miss w u ?wanted ?key s = (r, s', evs)" by simp
    from after_miss_frame [OF this assms(3)] show ?thesis .
  next
    case (Some e)
    obtain t d where e: "e = (t, d)" by (cases e)
    show ?thesis
    proof (cases "now_check w - t < TTL")
      case True
      with sc assms(1) Some e show ?thesis by simp
    next
      case False
      with sc assms(1) Some e have "after_miss w u ?wanted ?key s = (r, s', evs)" by simp
      from after_miss_frame [OF this assms(3)] show ?thesis .
    qed
  qed
qed

text \<open>
  C3, as the code has it.  The key is the URL, \<^verbatim>\<open>::\<close> and the field list joined with
  commas in request order; nothing sorts it.  For one URL two requests have the same
  key exactly when their field lists, after splitting, trimming and dropping empty
  segments, are the same sequence.  After a 200 answer the payload sits in the cache
  under the request's key, and a second request for the same URL with the same field
  sequence that arrives while the entry is younger than the TTL gets that payload
  back, with no call made and no state changed.  A second request for the same URL with
  a different field sequence, a permutation included, looks under another key, which
  the first request has left as it was; unless that key held a usable entry before the
  first request, the second request does what the handler does without an entry.
\<close>

theorem same_field_list_hits_cache:
  assumes "scrape w1 req1 s = (r1, s1, evs1)" and "status r1 = 200"
      and "url req1 = Some u" and "url req2 = Some u"
  shows "(cacheKey u (parse_wanted (fields_param req2)) = cacheKey u (parse_wanted (fields_param req1))
            \<longleftrightarrow> parse_wanted (fields_param req2) = parse_wanted (fields_param req1))
       \<and> (parse_wanted (fields_param req2) = parse_wanted (fields_param req1) \<longrightarrow>
            (\<exists>t d. body r1 = Data d
               \<and> cache s1 (cacheKey u (parse_wanted (fields_param req1))) = Some (t, d)
               \<and> (\<forall>w2. now_check w2 - t < TTL \<longrightarrow>
                    scrape w2 req2 s1 =
                      (\<lparr>status = 200, cache_control = None, body = Data d\<rparr>, s1, []))))
       \<and> (parse_wanted (fields_param req2) \<noteq> parse_wanted (fields_param req1) \<longrightarrow>
            cache s1 (cacheKey u (parse_wanted (fields_param req2))) =
              cache s (cacheKey u (parse_wanted (fields_param req2)))
            \<and> (\<forall>w2. parse_wanted (fields_param req2) \<noteq> []
                  \<and> \<not> (\<exists>t d. cache s (cacheKey u (parse_wanted (fields_param req2))) = Some (t, d)
                            \<and> now_check w2 - t < TTL) \<longrightarrow>
                  scrape w2 req2 s1 =
                    after_miss w2 u (parse_wanted (fields_param req2))
                      (cacheKey u (parse_wanted (fields_param req2))) s1))"
proof -
  let ?w1 = "parse_wanted (fields_param req1)"
  let ?w2 = "parse_wanted (fields_param req2)"
  have keys: "cacheKey u ?w2 = cacheKey u ?w1 \<longleftrightarrow> ?w2 = ?w1"
    by (rule cacheKey_inj)
  from assms(1,2) obtain v t d where
    v: "url req1 = Some v" "v \<noteq> []" "?w1 \<noteq> []"
    and d: "body r1 = Data d"
    and c: "cache s1 (cacheKey v ?w1) = Some (t, d)"
    by (rule scrape_200_entry)
  from v(1) assms(3) have uv: "v = u" by simp
  have hit: "?w2 = ?w1 \<longrightarrow>
            (\<exists>t d. body r1 = Data d
               \<and> cache s1 (cacheKey u ?w1) = Some (t, d)
               \<and> (\<forall>w2. now_check w2 - t < TTL \<longrightarrow>
                    scrape w2 req2 s1 =
                      (\<lparr>status = 200, cache_control = None, body = Data d\<rparr>, s1, [])))"
  proof (rule impI)
    assume same: "?w2 = ?w1"
    have "scrape w2 req2 s1 = (\<lparr>status = 200, cache_control = None, body = Data d\<rparr>, s1, [])"
      if "now_check w2 - t < TTL" for w2
      using scrape_valid [of req2 v ?w1 w2 s1] assms(4) v same c that uv
      by simp
    with d c uv show "\<exists>t d. body r1 = Data d
        \<and> cache s1 (cacheKey u ?w1) = Some (t, d)
        \<and> (\<forall>w2. now_check w2 - t < TTL \<longrightarrow>
           scrape w2 req2 s1 = (\<lparr>status = 200, cache_control = None, body = Data d\<rparr>, s1, []))"
      by blast
  qed
  have other: "?w2 \<noteq> ?w1 \<longrightarrow>
            cache s1 (cacheKey u ?w2) = cache s (cacheKey u ?w2)
            \<and> (\<forall>w2. ?w2 \<noteq> []
                  \<and> \<not> (\<exists>t d. cache s (cacheKey u ?w2) = Some (t, d) \<and> now_check w2 - t < TTL) \<longrightarrow>
                  scrape w2 req2 s1 = after_miss w2 u ?w2 (cacheKey u ?w2) s1)"
  proof (rule impI)
    assume diff: "?w2 \<noteq> ?w1"
    with keys have "cacheKey u ?w2 \<noteq> cacheKey u ?w1"
      by simp
    from scrape_frame [OF assms(1) assms(3) this]
    have fr: "cache s1 (cacheKey u ?w2) = cache s (cacheKey u ?w2)" .
    have run: "scrape w2 req2 s1 = after_miss w2 u ?w2 (cacheKey u ?w2) s1"
      if a: "?w2 \<noteq> [] \<and> \<not> (\<exists>t d. cache s (cacheKey u ?w2) = Some (t, d) \<and> now_check w2 - t < TTL)"
      for w2
    proof (rule scrape_miss [OF assms(4) _ refl])
      show "u \<noteq> []" using v(2) uv by simp
      show "?w2 \<noteq> []" using a by (rule conjunct1)
      show "\<not> (\<exists>t d. cache s1 (cacheKey u ?w2) = Some (t, d) \<and> now_check w2 - t < TTL)"
        unfolding fr using a by (rule conjunct2)
    qed
    from fr run show "cache s1 (cacheKey u ?w2) = cache s (cacheKey u ?w2)
            \<and> (\<forall>w2. ?w2 \<noteq> []
                  \<and> \<not> (\<exists>t d. cache s (cacheKey u ?w2) = Some (t, d) \<and> now_check w2 - t < TTL) \<longrightarrow>
                  scrape w2 req2 s1 = after_miss w2 u ?w2 (cacheKey u ?w2) s1)"
      by (intro conjI allI impI)
  qed
  show ?thesis
    by (rule conjI [OF keys conjI [OF hit other]])
qed

text \<open>
  C3, witness: \<^verbatim>\<open>price, title\<close> is scraped from the Amazon page; one second later
  \<^verbatim>\<open> price,title,\<close> is answered from the cache, and \<^verbatim>\<open>title,price\<close> is handled as
  a request without an entry.
\<close>

theorem same_field_list_hits_cache_witness:
  "scrape (calm\<lparr>now_check := 1000\<rparr>) (get amazon_url '' price,title,'')
      (fst (snd (scrape calm (get amazon_url ''price, title'') initial))) =
     (\<lparr>status = 200, cache_control = None,
       body = body (fst (scrape calm (get amazon_url ''price, title'') initial))\<rparr>,
      fst (snd (scrape calm (get amazon_url ''price, title'') initial)), [])
   \<and> scrape calm (get amazon_url ''title,price'')
        (fst (snd (scrape calm (get amazon_url ''price, title'') initial))) =
      after_miss calm amazon_url [''title'', ''price''] (cacheKey amazon_url [''title'', ''price''])
        (fst (snd (scrape calm (get amazon_url ''price, title'') initial)))"
proof -
  let ?req1 = "get amazon_url ''price, title''"
  let ?req2 = "get amazon_url '' price,title,''"
  let ?req3 = "get amazon_url ''title,price''"
  let ?run = "scrape calm ?req1 initial"
  have p: "?run = (fst ?run, fst (snd ?run), snd (snd ?run))"
    by simp
  have ok: "status (fst ?run) = 200"
    by (simp add: ev)
  have u1: "url ?req1 = Some amazon_url" and u2: "url ?req2 = Some amazon_url"
    and u3: "url ?req3 = Some amazon_url"
    by (simp_all add: get_def)
  have same: "parse_wanted (fields_param ?req2) = parse_wanted (fields_param ?req1)"
    by (simp add: get_def parse_wanted_def trim_def is_space_def)
  have w3: "parse_wanted (fields_param ?req3) = [''title'', ''price'']"
    by (simp add: get_def parse_wanted_def trim_def is_space_def)
  have diff: "parse_wanted (fields_param ?req3) \<noteq> parse_wanted (fields_param ?req1)"
    by (simp add: get_def parse_wanted_def trim_def is_space_def)
  have entry: "\<exists>d. cache (fst (snd ?run)) (cacheKey amazon_url (parse_wanted (fields_param ?req1)))
      = Some (0, d)"
    by (simp add: ev)
  from same_field_list_hits_cache [OF p ok u1 u2, THEN conjunct2, THEN conjunct1, THEN mp, OF same]
  obtain t d where
    d: "body (fst ?run) = Data d"
    and c: "cache (fst (snd ?run)) (cacheKey amazon_url (parse_wanted (fields_param ?req1))) = Some (t, d)"
    and h: "\<And>w2. now_check w2 - t < TTL \<Longrightarrow>
      scrape w2 ?req2 (fst (snd ?run)) =
        (\<lparr>status = 200, cache_control = None, body = Data d\<rparr>, fst (snd ?run), [])"
    by blast
  from entry c have t: "t = 0" by auto
  have "now_check (calm\<lparr>now_check := 1000\<rparr>) - t < TTL"
    by (simp add: t TTL_def)
  from h [OF this] d have first: "scrape (calm\<lparr>now_check := 1000\<rparr>) ?req2 (fst (snd ?run)) =
     (\<lparr>status = 200, cache_control = None, body = body (fst ?run)\<rparr>, fst (snd ?run), [])"
    by simp
  have fresh: "parse_wanted (fields_param ?req3) \<noteq> []
      \<and> \<not> (\<exists>t d. cache initial (cacheKey amazon_url (parse_wanted (fields_param ?req3))) = Some (t, d)
                \<and> now_check calm - t < TTL)"
    by (simp add: w3 initial_def)
  from same_field_list_hits_cache [OF p ok u1 u3, THEN conjunct2, THEN conjunct2, THEN mp, OF diff,
      THEN conjunct2, THEN spec, THEN mp, OF fresh]
  have second: "scrape calm ?req3 (fst (snd ?run)) =
      after_miss calm amazon_url [''title'', ''price''] (cacheKey amazon_url [''title'', ''price''])
        (fst (snd ?run))"
    by (simp only: w3)
  from first second show ?thesis by (rule conjI)
qed




section \<open>The browser singleton: one launch\<close>

lemma getBrowser_singleton:
  assumes "getBrowser s = (p, s1, ev)" "singleton s"
  shows "singleton s1 \<and> launch_no p = 1 \<and> launches s1 = 1
         \<and> launches s1 = launches s + count_list ev EvLaunch"
  using assms by (auto simp: getBrowser_def singleton_def Let_def split: option.splits)

lemma settle_singleton: "singleton s \<Longrightarrow> singleton (settle r s)"
  by (auto simp: settle_def singleton_def split: option.splits promise.splits settlement.splits)

lemma after_miss_singleton:
  assumes "after_miss w u wanted key s = (r, s', evs)" "singleton s"
  shows "singleton s' \<and> launches s' = launches s + count_list evs EvLaunch"
proof -
  obtain r0 s0 evs0 where bp: "browser_path w u wanted key s = (r0, s0, evs0)"
    by (cases "browser_path w u wanted key s") auto
  obtain p s1 ev1 where g: "getBrowser s = (p, s1, ev1)"
    by (cases "getBrowser s") auto
  from browser_path_singleton [OF bp] g
  have b: "browserPromise s0 = browserPromise (settle (launch w) s1)"
    "launches s0 = launches s1"
    "count_list evs0 EvLaunch = (if browserPromise s = None then 1 else 0)"
    by simp_all
  from getBrowser_singleton [OF g assms(2)] getBrowser_events [OF g]
  have g1: "singleton s1" "launches s1 = launches s + (if browserPromise s = None then 1 else 0)"
    by auto
  from settle_singleton [OF g1(1), of "launch w"] settle_frame [of "launch w" s1] b
  have s0: "singleton s0"
    by (auto simp: singleton_def split: option.splits)
  have via: "singleton s0 \<and> launches s0 = launches s + count_list evs0 EvLaunch"
    using s0 b g1 by simp
  from assms via bp show ?thesis
    by (auto simp: after_miss_def Let_def singleton_def split: option.splits if_splits)
qed

lemma scrape_singleton:
  assumes "scrape w req s = (r, s', evs)" "singleton s"
  shows "singleton s' \<and> launches s' = launches s + count_list evs EvLaunch"
proof (cases "\<exists>u wanted key. after_miss w u wanted key s = (r, s', evs)")
  case True
  with after_miss_singleton assms(2) show ?thesis by blast
next
  case False
  with assms(1) have "s' = s \<and> evs = []"
    by (auto simp: scrape_def Let_def split: option.splits if_splits)
  with assms(2) show ?thesis by simp
qed

lemma run_singleton:
  "run as s = (ps, evs, s') \<Longrightarrow> singleton s \<Longrightarrow>
     singleton s' \<and> launches s' = launches s + count_list evs EvLaunch
     \<and> (\<forall>p\<in>set ps. launch_no p = 1) \<and> (ps \<noteq> [] \<longrightarrow> launches s' = 1)"
proof (induction as s arbitrary: ps evs s' rule: run.induct)
  case (1 s)
  then show ?case by simp
next
  case (2 as s)
  obtain p s1 ev where g: "getBrowser s = (p, s1, ev)"
    by (cases "getBrowser s") auto
  obtain ps1 evs1 s2 where r: "run as s1 = (ps1, evs1, s2)"
    by (cases "run as s1") auto
  from "2.prems" g r have eq: "ps = p # ps1" "evs = ev @ evs1" "s' = s2"
    by simp_all
  note gs = getBrowser_singleton [OF g "2.prems"(2)]
  from "2.IH" [OF g [symmetric] refl r] gs
  have ih: "singleton s2" "launches s2 = launches s1 + count_list evs1 EvLaunch"
    "\<forall>p\<in>set ps1. launch_no p = 1"
    by simp_all
  from ih(1) gs ih(2) have "launches s2 = 1"
    by (auto simp: singleton_def split: option.splits)
  with ih gs eq show ?case by simp
next
  case (3 r as s)
  from "3.prems"(1) have "run as (settle r s) = (ps, evs, s')"
    by simp
  from "3.IH" [OF this settle_singleton [OF "3.prems"(2)]] settle_frame [of r s]
  show ?case by auto
next
  case (4 w req as s)
  obtain resp s1 ev where h: "scrape w req s = (resp, s1, ev)"
    by (cases "scrape w req s") auto
  obtain ps1 evs1 s2 where r: "run as s1 = (ps1, evs1, s2)"
    by (cases "run as s1") auto
  from "4.prems" h r have eq: "ps = ps1" "evs = ev @ evs1" "s' = s2"
    by simp_all
  note hs = scrape_singleton [OF h "4.prems"(2)]
  from "4.IH" [OF h [symmetric] refl r] hs eq show ?case by auto
qed

text \<open>
  C8.  From the start of the process, over any sequence of \<^verbatim>\<open>getBrowser()\<close> calls,
  settlements of the launch and whole requests, in any order: \<^verbatim>\<open>chromium.launch\<close> is
  called at most once, and exactly once as soon as anyone has called \<^verbatim>\<open>getBrowser\<close>;
  every caller is handed the promise of that one launch, before and after it settles,
  so any two callers whose \<^verbatim>\<open>await\<close> resolves hold the same browser.
\<close>

theorem browser_launched_once:
  assumes "run as initial = (ps, evs, s)"
  shows "launches s \<le> 1 \<and> count_list evs EvLaunch = launches s
         \<and> (\<forall>p\<in>set ps. launch_no p = 1)
         \<and> (\<forall>p\<in>set ps. \<forall>q\<in>set ps. \<forall>r b c. await r p = Inr b \<and> await r q = Inr c \<longrightarrow> b = c)
         \<and> (ps \<noteq> [] \<longrightarrow> launches s = 1)"
proof -
  have i: "singleton initial" "launches initial = 0"
    by (simp_all add: singleton_def initial_def)
  from run_singleton [OF assms i(1)] i(2)
  have a: "singleton s" "launches s = count_list evs EvLaunch"
    "\<forall>p\<in>set ps. launch_no p = 1" "ps \<noteq> [] \<longrightarrow> launches s = 1"
    by auto
  from a(1) have b: "launches s \<le> 1"
    by (auto simp: singleton_def split: option.splits)
  have aw: "await r p = Inr b \<Longrightarrow> b = launch_no p" for r p b
    by (cases "(r, p)" rule: await.cases) (auto split: option.splits)
  from a(3) aw have c: "\<forall>p\<in>set ps. \<forall>q\<in>set ps. \<forall>r b c. await r p = Inr b \<and> await r q = Inr c \<longrightarrow> b = c"
    by metis
  from a b c show ?thesis by simp
qed

text \<open>
  C8, witness: two callers before the launch settles, a request, and a later caller.
\<close>

theorem browser_launched_once_witness:
  "map launch_no (fst (run [Call, Call, Settles None, Handle calm (get amazon_url ''price''), Call] initial))
     = [1, 1, 1]
   \<and> count_list (fst (snd (run [Call, Call, Settles None, Handle calm (get amazon_url ''price''), Call] initial)))
       EvLaunch = 1
   \<and> launches (snd (snd (run [Call, Call, Settles None, Handle calm (get amazon_url ''price''), Call] initial))) = 1"
proof -
  let ?run = "run [Call, Call, Settles None, Handle calm (get amazon_url ''price''), Call] initial"
  have p: "?run = (fst ?run, fst (snd ?run), snd (snd ?run))"
    by simp
  have ps: "map launch_no (fst ?run) = [1, 1, 1]"
    by (simp add: ev)
  then have "fst ?run \<noteq> []"
    by auto
  with browser_launched_once [OF p] ps show ?thesis
    by simp
qed

section \<open>Field lists, headers, values and raw\<close>

lemma extract_loop_keys:
  "extract_loop q n keys out = Inr out' \<Longrightarrow> fst ` set out' = fst ` set out \<union> set keys"
proof (induction keys arbitrary: n out)
  case Nil
  then show ?case by simp
next
  case (Cons key keys)
  from Cons.prems obtain cands v n' where
    "extract_loop q n' keys (AList.update key (normalize key v) out) = Inr out'"
    by (auto split: option.splits prod.splits sum.splits)
  from Cons.IH [OF this] show ?case
    by (auto simp: dom_update)
qed

lemma extract_loop_distinct:
  "extract_loop q n keys out = Inr out' \<Longrightarrow> distinct (map fst out) \<Longrightarrow> distinct (map fst out')"
proof (induction keys arbitrary: n out)
  case Nil
  then show ?case by simp
next
  case (Cons key keys)
  from Cons.prems(1) obtain cands v n' where
    "extract_loop q n' keys (AList.update key (normalize key v) out) = Inr out'"
    by (auto split: option.splits prod.splits sum.splits)
  from Cons.IH [OF this] Cons.prems(2) show ?case
    by (simp add: distinct_update)
qed

text \<open>
  A name that is neither in the catalog nor inherited gets the empty string and the loop
  goes on; so does a name whose candidates all match nothing.
\<close>

lemma unknown_field_empty:
  assumes "map_of selectors key = None" "key \<notin> set object_prototype_keys"
  shows "extract_loop q n (key # keys) out = extract_loop q n keys (AList.update key (JStr []) out)"
  using assms by (simp add: candidates_def normalize_def)

lemma no_match_empty:
  assumes "candidates key = Some cands" "\<forall>k sel. q k sel = Inr None"
  shows "extract_loop q n (key # keys) out = extract_loop q (n + length cands) keys (AList.update key (JStr []) out)"
proof -
  have "try_candidates q m cs v = (Inr v, m + length cs)" for m cs v
    using assms(2) by (induction cs arbitrary: m) auto
  with assms(1) show ?thesis
    by (simp add: normalize_def)
qed

lemma costco_out_keys:
  "distinct (map fst (costco_out wanted m))
   \<and> fst ` set (costco_out wanted m) = set wanted \<inter> {''c_price'', ''c_title''}"
  by (auto simp: costco_out_def Let_def)

lemma split_comma_chars: "x \<in> set (split_comma s) \<Longrightarrow> set x \<subseteq> set s"
proof (induction s arbitrary: x)
  case Nil
  then show ?case by simp
next
  case (Cons c s)
  obtain seg segs where sp: "split_comma s = seg # segs"
    using split_comma_not_Nil [of s] by (cases "split_comma s") auto
  show ?case
  proof (cases "c = CHR '',''")
    case True
    with Cons.prems have "x = [] \<or> x \<in> set (split_comma s)"
      by simp
    with Cons.IH show ?thesis by auto
  next
    case False
    with Cons.prems sp have "x = c # seg \<or> x \<in> set segs"
      by simp
    then show ?thesis
    proof
      assume x: "x = c # seg"
      from sp have "seg \<in> set (split_comma s)" by simp
      from Cons.IH [OF this] x show ?thesis by auto
    next
      assume "x \<in> set segs"
      with sp have "x \<in> set (split_comma s)" by simp
      from Cons.IH [OF this] show ?thesis by auto
    qed
  qed
qed

lemma trim_blank:
  assumes "\<forall>c\<in>set x. is_space c"
  shows "trim x = []"
proof -
  from assms have "dropWhile is_space x = []"
    by simp
  then show ?thesis
    unfolding trim_def by (simp only: rev.simps dropWhile.simps)
qed

lemma blank_fields:
  assumes "\<forall>c\<in>set f. c = CHR '','' \<or> is_space c"
  shows "parse_wanted (Some f) = []"
proof -
  have blank: "trim x = []" if "x \<in> set (split_comma f)" for x
  proof (rule trim_blank, rule ballI)
    fix c assume c: "c \<in> set x"
    with split_comma_chars [OF that] have "c \<in> set f" by blast
    moreover from c split_comma_segments [OF that] have "c \<noteq> CHR '',''" by blast
    ultimately show "is_space c" using assms by blast
  qed
  have "filter (\<lambda>x. x \<noteq> []) (map trim (split_comma f)) = []"
    unfolding filter_empty_conv
  proof (rule ballI)
    fix y assume "y \<in> set (map trim (split_comma f))"
    then obtain x where "x \<in> set (split_comma f)" "y = trim x" by auto
    with blank show "\<not> y \<noteq> []" by simp
  qed
  then show ?thesis
    unfolding parse_wanted_def by simp
qed

lemma after_miss_shape:
  assumes "after_miss w u wanted key s = (r, s', evs)" "status r = 200"
  shows "\<exists>d. body r = Data d \<and> headers d = wanted
         \<and> values_arr d = map (lookup_out (raw d)) wanted
         \<and> distinct (map fst (raw d))
         \<and> (EvStep (Goto u) \<in> set evs \<longrightarrow> set wanted \<subseteq> fst ` set (raw d))
         \<and> (EvStep (Goto u) \<notin> set evs \<longrightarrow>
               fst ` set (raw d) = set wanted \<inter> {''c_price'', ''c_title''})"
  using assms(1)
proof (cases rule: after_miss_cases)
  case (failed m)
  with assms(2) show ?thesis by (simp add: failure_def)
next
  case (static h m)
  have k: "distinct (map fst (costco_out wanted m))"
    "fst ` set (costco_out wanted m) = set wanted \<inter> {''c_price'', ''c_title''}"
    using costco_out_keys [of wanted m] by blast+
  have g: "EvStep (Goto u) \<notin> set evs"
    using static(6) by simp
  show ?thesis
  proof (intro exI conjI impI)
    show "body r = Data (result_of wanted (costco_out wanted m))"
      using static(4) by simp
  qed (use k g in \<open>simp_all add: result_of_def\<close>)
next
  case (browser out)
  have k: "distinct (map fst out)" "set wanted \<subseteq> fst ` set out"
    using extract_loop_keys [OF browser(1)] extract_loop_distinct [OF browser(1)] by simp_all
  show ?thesis
  proof (intro exI conjI impI)
    show "body r = Data (result_of wanted out)"
      using browser(2) by simp
  qed (use k browser(4) in \<open>simp_all add: result_of_def\<close>)
qed

text \<open>A response built by a run of the extraction, and the 400 answer.\<close>

lemma duplicates_kept_built:
  "(url req = Some u \<and> u \<noteq> [] \<and> parse_wanted (fields_param req) = wanted
      \<and> \<not> (\<exists>t d. cache s (cacheKey u wanted) = Some (t, d) \<and> now_check w - t < TTL)
      \<and> scrape w req s = (r, s', evs) \<and> status r = 200 \<longrightarrow>
      (\<exists>d. body r = Data d \<and> headers d = wanted
         \<and> length (values_arr d) = length wanted
         \<and> (\<forall>i<length wanted. \<forall>j<length wanted.
               wanted ! i = wanted ! j \<longrightarrow> values_arr d ! i = values_arr d ! j)
         \<and> distinct (map fst (raw d))
         \<and> (EvStep (Goto u) \<in> set evs \<longrightarrow> set wanted \<subseteq> fst ` set (raw d))
         \<and> (EvStep (Goto u) \<notin> set evs \<longrightarrow>
               fst ` set (raw d) = set wanted \<inter> {''c_price'', ''c_title''})))
   \<and> ((\<forall>c\<in>set f. c = CHR '','' \<or> is_space c) \<longrightarrow>
        scrape w0 \<lparr>url = x, fields_param = Some f\<rparr> s0 =
          (\<lparr>status = 400, cache_control = None, body = Error ''Missing url or fields''\<rparr>, s0, []))"
proof (rule conjI; rule impI)
  assume a: "url req = Some u \<and> u \<noteq> [] \<and> parse_wanted (fields_param req) = wanted
      \<and> \<not> (\<exists>t d. cache s (cacheKey u wanted) = Some (t, d) \<and> now_check w - t < TTL)
      \<and> scrape w req s = (r, s', evs) \<and> status r = 200"
  then have a1: "url req = Some u" and a2: "u \<noteq> []"
    and a3: "parse_wanted (fields_param req) = wanted"
    and a4: "\<not> (\<exists>t d. cache s (cacheKey u wanted) = Some (t, d) \<and> now_check w - t < TTL)"
    and a5: "scrape w req s = (r, s', evs)" and a6: "status r = 200"
    by blast+
  from a5 a6 obtain v where "parse_wanted (fields_param req) \<noteq> []"
    by (rule scrape_200_valid)
  with a3 have ne: "wanted \<noteq> []"
    by blast
  from scrape_miss [OF a1 a2 a3 ne a4] a5
  have am: "after_miss w u wanted (cacheKey u wanted) s = (r, s', evs)"
    by simp
  from after_miss_shape [OF am a6] obtain d where dd: "body r = Data d \<and> headers d = wanted
         \<and> values_arr d = map (lookup_out (raw d)) wanted
         \<and> distinct (map fst (raw d))
         \<and> (EvStep (Goto u) \<in> set evs \<longrightarrow> set wanted \<subseteq> fst ` set (raw d))
         \<and> (EvStep (Goto u) \<notin> set evs \<longrightarrow>
               fst ` set (raw d) = set wanted \<inter> {''c_price'', ''c_title''})"
    by (rule exE)
  note d = dd [THEN conjunct1] dd [THEN conjunct2, THEN conjunct1]
    dd [THEN conjunct2, THEN conjunct2, THEN conjunct1]
    dd [THEN conjunct2, THEN conjunct2, THEN conjunct2, THEN conjunct1]
    dd [THEN conjunct2, THEN conjunct2, THEN conjunct2, THEN conjunct2, THEN conjunct1]
    dd [THEN conjunct2, THEN conjunct2, THEN conjunct2, THEN conjunct2, THEN conjunct2]
  have len: "length (values_arr d) = length wanted"
    unfolding d(3) by (rule length_map)
  have eq: "\<forall>i<length wanted. \<forall>j<length wanted.
      wanted ! i = wanted ! j \<longrightarrow> values_arr d ! i = values_arr d ! j"
    unfolding d(3) by (intro allI impI) (simp only: nth_map)
  show "\<exists>d. body r = Data d \<and> headers d = wanted
         \<and> length (values_arr d) = length wanted
         \<and> (\<forall>i<length wanted. \<forall>j<length wanted.
               wanted ! i = wanted ! j \<longrightarrow> values_arr d ! i = values_arr d ! j)
         \<and> distinct (map fst (raw d))
         \<and> (EvStep (Goto u) \<in> set evs \<longrightarrow> set wanted \<subseteq> fst ` set (raw d))
         \<and> (EvStep (Goto u) \<notin> set evs \<longrightarrow>
               fst ` set (raw d) = set wanted \<inter> {''c_price'', ''c_title''})"
  proof (intro exI conjI)
    show "body r = Data d" by (rule d(1))
    show "headers d = wanted" by (rule d(2))
    show "length (values_arr d) = length wanted" by (rule len)
    show "\<forall>i<length wanted. \<forall>j<length wanted.
        wanted ! i = wanted ! j \<longrightarrow> values_arr d ! i = values_arr d ! j" by (rule eq)
    show "distinct (map fst (raw d))" by (rule d(4))
    show "EvStep (Goto u) \<in> set evs \<longrightarrow> set wanted \<subseteq> fst ` set (raw d)" by (rule d(5))
    show "EvStep (Goto u) \<notin> set evs \<longrightarrow>
        fst ` set (raw d) = set wanted \<inter> {''c_price'', ''c_title''}" by (rule d(6))
  qed
next
  assume "\<forall>c\<in>set f. c = CHR '','' \<or> is_space c"
  then have "parse_wanted (Some f) = []"
    by (rule blank_fields)
  then have "scrape w0 \<lparr>url = x, fields_param = Some f\<rparr> s0 = (bad_request, s0, [])"
    by (intro scrape_invalid) simp
  then show "scrape w0 \<lparr>url = x, fields_param = Some f\<rparr> s0 =
      (\<lparr>status = 400, cache_control = None, body = Error ''Missing url or fields''\<rparr>, s0, [])"
    by (simp add: bad_request_def)
qed


text \<open>
  C10, as the code has it.  For a valid request answered 200 by a run of the extraction
  (not from the cache): the headers are the field list as parsed, duplicates included,
  the values stand at the same positions, equal names carry equal values, and no name
  occurs twice in \<^verbatim>\<open>raw\<close>.  On the browser path every requested name is in \<^verbatim>\<open>raw\<close>;
  on the fast path \<^verbatim>\<open>raw\<close> holds only those of \<^verbatim>\<open>c_price\<close> and \<^verbatim>\<open>c_title\<close> that were
  requested, so any other name, duplicated or not, is absent from it.  A valid request
  that finds a usable entry under its key is answered with the payload stored there,
  unchanged.  A fields parameter made of commas and white space only is answered 400
  with \<^verbatim>\<open>Missing url or fields\<close>.
\<close>

theorem duplicates_kept:
  "(url req = Some u \<and> u \<noteq> [] \<and> parse_wanted (fields_param req) = wanted
      \<and> \<not> (\<exists>t d. cache s (cacheKey u wanted) = Some (t, d) \<and> now_check w - t < TTL)
      \<and> scrape w req s = (r, s', evs) \<and> status r = 200 \<longrightarrow>
      (\<exists>d. body r = Data d \<and> headers d = wanted
         \<and> length (values_arr d) = length wanted
         \<and> (\<forall>i<length wanted. \<forall>j<length wanted.
               wanted ! i = wanted ! j \<longrightarrow> values_arr d ! i = values_arr d ! j)
         \<and> distinct (map fst (raw d))
         \<and> (EvStep (Goto u) \<in> set evs \<longrightarrow> set wanted \<subseteq> fst ` set (raw d))
         \<and> (EvStep (Goto u) \<notin> set evs \<longrightarrow>
               fst ` set (raw d) = set wanted \<inter> {''c_price'', ''c_title''})))
   \<and> (url req = Some u \<and> u \<noteq> [] \<and> parse_wanted (fields_param req) = wanted \<and> wanted \<noteq> []
      \<and> cache s (cacheKey u wanted) = Some (t, p) \<and> now_check w - t < TTL \<longrightarrow>
        scrape w req s = (\<lparr>status = 200, cache_control = None, body = Data p\<rparr>, s, []))
   \<and> ((\<forall>c\<in>set f. c = CHR '','' \<or> is_space c) \<longrightarrow>
        scrape w0 \<lparr>url = x, fields_param = Some f\<rparr> s0 =
          (\<lparr>status = 400, cache_control = None, body = Error ''Missing url or fields''\<rparr>, s0, []))"
proof -
  note built = duplicates_kept_built [of req u wanted s w r s' evs f w0 x s0]
  have replay: "url req = Some u \<and> u \<noteq> [] \<and> parse_wanted (fields_param req) = wanted \<and> wanted \<noteq> []
      \<and> cache s (cacheKey u wanted) = Some (t, p) \<and> now_check w - t < TTL \<longrightarrow>
        scrape w req s = (\<lparr>status = 200, cache_control = None, body = Data p\<rparr>, s, [])"
  proof (rule impI)
    assume "url req = Some u \<and> u \<noteq> [] \<and> parse_wanted (fields_param req) = wanted \<and> wanted \<noteq> []
      \<and> cache s (cacheKey u wanted) = Some (t, p) \<and> now_check w - t < TTL"
    then have a: "url req = Some u" "u \<noteq> []" "parse_wanted (fields_param req) = wanted"
      "wanted \<noteq> []" and c: "cache s (cacheKey u wanted) = Some (t, p)"
      and n: "now_check w - t < TTL"
      by blast+
    from scrape_valid [OF a, of w s] c n
    show "scrape w req s = (\<lparr>status = 200, cache_control = None, body = Data p\<rparr>, s, [])"
      by simp
  qed
  show ?thesis
    by (rule conjI [OF built [THEN conjunct1] conjI [OF replay built [THEN conjunct2]]])
qed

text \<open>
  C10, witness: \<^verbatim>\<open>price,title,price\<close> on the Amazon page keeps both occurrences of
  \<^verbatim>\<open>price\<close>; a request that finds a usable entry gets the stored payload; and
  \<^verbatim>\<open> , ,\<close> is answered 400.
\<close>

theorem duplicates_kept_witness:
  "(\<exists>d. body (fst (scrape calm (get amazon_url ''price,title,price'') initial)) = Data d
      \<and> headers d = [''price'', ''title'', ''price'']
      \<and> values_arr d ! 0 = values_arr d ! 2
      \<and> distinct (map fst (raw d))
      \<and> set [''price'', ''title'', ''price''] \<subseteq> fst ` set (raw d))
   \<and> scrape calm (get amazon_url ''price'') warm =
       (\<lparr>status = 200, cache_control = None, body = Data stored\<rparr>, warm, [])
   \<and> scrape calm \<lparr>url = Some amazon_url, fields_param = Some '' , ,''\<rparr> initial =
       (\<lparr>status = 400, cache_control = None, body = Error ''Missing url or fields''\<rparr>, initial, [])"
proof -
  let ?req = "get amazon_url ''price,title,price''"
  let ?wanted = "[''price'', ''title'', ''price'']"
  let ?run = "scrape calm ?req initial"
  have h: "url ?req = Some amazon_url \<and> amazon_url \<noteq> []
      \<and> parse_wanted (fields_param ?req) = ?wanted
      \<and> \<not> (\<exists>t d. cache initial (cacheKey amazon_url ?wanted) = Some (t, d) \<and> now_check calm - t < TTL)
      \<and> ?run = (fst ?run, fst (snd ?run), snd (snd ?run)) \<and> status (fst ?run) = 200"
    by (simp add: ev)
  have g: "EvStep (Goto amazon_url) \<in> set (snd (snd ?run))"
    by (simp add: ev)
  have b: "\<forall>c\<in>set '' , ,''. c = CHR '','' \<or> is_space c"
    by (simp add: is_space_def)
  have k: "url (get amazon_url ''price'') = Some amazon_url \<and> amazon_url \<noteq> []
      \<and> parse_wanted (fields_param (get amazon_url ''price'')) = [''price''] \<and> [''price''] \<noteq> []
      \<and> cache warm (cacheKey amazon_url [''price'']) = Some (0, stored) \<and> now_check calm - 0 < TTL"
    by (simp add: get_def amazon_url_def parse_wanted_def trim_def is_space_def warm_def calm_def TTL_def)
  from duplicates_kept [THEN conjunct1, THEN mp, OF h] obtain d where d: "body (fst ?run) = Data d"
      "headers d = ?wanted"
      "\<forall>i<length ?wanted. \<forall>j<length ?wanted. ?wanted ! i = ?wanted ! j \<longrightarrow> values_arr d ! i = values_arr d ! j"
      "distinct (map fst (raw d))"
      "EvStep (Goto amazon_url) \<in> set (snd (snd ?run)) \<longrightarrow> set ?wanted \<subseteq> fst ` set (raw d)"
    by (elim exE conjE)
  from d(3) have "values_arr d ! 0 = values_arr d ! 2"
    by simp
  moreover from d(5) g have "set ?wanted \<subseteq> fst ` set (raw d)"
    by (rule mp)
  ultimately have first: "\<exists>d. body (fst ?run) = Data d
      \<and> headers d = ?wanted \<and> values_arr d ! 0 = values_arr d ! 2
      \<and> distinct (map fst (raw d)) \<and> set ?wanted \<subseteq> fst ` set (raw d)"
    using d(1,2,4) by (intro exI [of _ d] conjI)
  from duplicates_kept [THEN conjunct2, THEN conjunct1, THEN mp, OF k]
  have second: "scrape calm (get amazon_url ''price'') warm =
       (\<lparr>status = 200, cache_control = None, body = Data stored\<rparr>, warm, [])" .
  from duplicates_kept [THEN conjunct2, THEN conjunct2, THEN mp, OF b]
  have third: "scrape calm \<lparr>url = Some amazon_url, fields_param = Some '' , ,''\<rparr> initial =
       (\<lparr>status = 400, cache_control = None, body = Error ''Missing url or fields''\<rparr>, initial, [])" .
  from first second third show ?thesis
    by (intro conjI)
qed

section \<open>The handler on the example requests\<close>

text \<open>
  C2 at a navigation timeout.  The request asks for the Amazon price and \<^verbatim>\<open>page.goto\<close>
  rejects.  Context 0 has been created; the \<^verbatim>\<open>catch\<close> block answers 500; no
  \<^verbatim>\<open>context.close()\<close> is among the calls made, and the context is still open when the
  handler has returned.
\<close>

theorem context_leak_on_timeout:
  "(case scrape slow (get amazon_url ''price'') initial of
      (r, s, evs) \<Rightarrow>
        r = \<lparr>status = 500, cache_control = None, body = Error ''Timeout 30000ms exceeded''\<rparr>
        \<and> evs = [EvLaunch, EvNewContext 0, EvStep NewPage, EvStep Route,
                  EvStep SetExtraHTTPHeaders, EvStep (Goto amazon_url)]
        \<and> contexts s = 1 \<and> live s = [0])"
  by (simp add: ev)

text \<open>
  C5 on one product page through both paths.  The page carries the price meta tag with
  content \<^verbatim>\<open>19.99\<close>.  When the static fetch succeeds the fast path returns the string
  \<^verbatim>\<open>19.99\<close> for \<^verbatim>\<open>c_price\<close>; when the fetch fails the browser path reads the same tag
  and returns the number 19.99.
\<close>

theorem fast_path_returns_raw_price:
  "body (fst (scrape calm (get costco_url ''c_price'') initial)) =
     Data \<lparr>headers = [''c_price''], values_arr = [JStr ''19.99''],
           raw = [(''c_price'', JStr ''19.99'')]\<rparr>
   \<and> body (fst (scrape offline (get costco_url ''c_price'') initial)) =
     Data \<lparr>headers = [''c_price''], values_arr = [JNum (1999 / 100)],
           raw = [(''c_price'', JNum (1999 / 100))]\<rparr>"
  by (simp add: ev)

text \<open>
  C6 on the three successful exits.  The fast path answers 200 without a
  \<^verbatim>\<open>Cache-Control\<close> header; the browser path answers 200 with
  \<^verbatim>\<open>public, max-age=900\<close>; the same request repeated at once is answered 200 from the
  cache with the same body and without the header.
\<close>

theorem cache_control_only_on_browser_path:
  "(case scrape calm (get costco_url ''c_price'') initial of
      (r, s, evs) \<Rightarrow> status r = 200 \<and> cache_control r = None \<and> evs = [EvFetch costco_url])
   \<and> (case scrape calm (get amazon_url ''price'') initial of
      (r1, s1, evs1) \<Rightarrow>
        status r1 = 200 \<and> cache_control r1 = Some ''public, max-age=900''
        \<and> (case scrape calm (get amazon_url ''price'') s1 of
              (r2, s2, evs2) \<Rightarrow>
                status r2 = 200 \<and> body r2 = body r1 \<and> cache_control r2 = None \<and> evs2 = []))"
  by (simp add: ev)

text \<open>
  C9 at a field named \<^verbatim>\<open>constructor\<close>.  The catalog has no entry for it, but
  \<^verbatim>\<open>selectors[key]\<close> finds the inherited property, \<^verbatim>\<open>|| []\<close> does not apply, and the
  loop header throws: the request is answered 500 (and its context stays open).
\<close>

theorem inherited_name_throws:
  "map_of selectors ''constructor'' = None
   \<and> (case scrape calm (get amazon_url ''title,constructor'') initial of
      (r, s, evs) \<Rightarrow>
        r = \<lparr>status = 500, cache_control = None, body = Error ''cands is not iterable''\<rparr>
        \<and> live s = [0])"
  by (simp add: ev)

text \<open>
  C3 as the spec states it fails: \<^verbatim>\<open>price,title\<close> and \<^verbatim>\<open>title,price\<close> are the same set
  of fields, their keys differ, and the second request, made at once after the first
  has been answered 200 and cached, navigates again.
\<close>

theorem permuted_fields_counterexample:
  "set [''price'', ''title''] = set [''title'', ''price'']
   \<and> cacheKey amazon_url [''price'', ''title''] \<noteq> cacheKey amazon_url [''title'', ''price'']
   \<and> (case scrape calm (get amazon_url ''price,title'') initial of
        (r1, s1, evs1) \<Rightarrow>
          status r1 = 200
          \<and> EvStep (Goto amazon_url) \<in> set (snd (snd (scrape calm (get amazon_url ''title,price'') s1))))"
  by (simp add: ev insert_commute)


text \<open>
  C10 as stated fails, in two ways.  \<^verbatim>\<open>c_price,rating,rating\<close> on a Costco URL is
  answered from the fast path with \<^verbatim>\<open>rating\<close> twice in the headers and not at all in
  \<^verbatim>\<open>raw\<close>.  And a request can be answered from an entry that a different request has
  stored: the URL ending in \<^verbatim>\<open>::price\<close> with the fields \<^verbatim>\<open>title,price::title\<close> and the
  URL without that ending with the fields \<^verbatim>\<open>price::title,price::title\<close> have the same
  key, so the second request, whose field list names \<^verbatim>\<open>price::title\<close> twice, is
  answered from the cache with the headers of the first, which name it once.
\<close>

theorem duplicate_fields_counterexample:
  "(case scrape calm (get costco_url ''c_price,rating,rating'') initial of
      (r, s, evs) \<Rightarrow>
        status r = 200
        \<and> body r = Data \<lparr>headers = [''c_price'', ''rating'', ''rating''],
                         values_arr = [JStr ''19.99'', JStr [], JStr []],
                         raw = [(''c_price'', JStr ''19.99'')]\<rparr>
        \<and> ''rating'' \<notin> fst ` set [(''c_price'', JStr ''19.99'')])
   \<and> cacheKey (amazon_url @ ''::price'') (parse_wanted (Some ''title,price::title''))
       = cacheKey amazon_url (parse_wanted (Some ''price::title,price::title''))
   \<and> parse_wanted (Some ''price::title,price::title'') = [''price::title'', ''price::title'']
   \<and> (case scrape amazon (get (amazon_url @ ''::price'') ''title,price::title'') initial of
        (r1, s1, evs1) \<Rightarrow>
          status r1 = 200
          \<and> (case scrape amazon (get amazon_url ''price::title,price::title'') s1 of
                (r2, s2, evs2) \<Rightarrow>
                  evs2 = []
                  \<and> r2 = \<lparr>status = 200, cache_control = None,
                          body = Data \<lparr>headers = [''title'', ''price::title''],
                                       values_arr = [JStr [], JStr []],
                                       raw = [(''title'', JStr []), (''price::title'', JStr [])]\<rparr>\<rparr>))"
  by (simp add: ev amazon_def amazon_hosts_def)

end
